theory Spec2Isabelle
  imports Main "HOL-Library.Sublist" "HOL-Library.Char_ord" "HOL-Library.List_Lexorder"
    "HOL-Library.Option_ord"
begin

section \<open>Python values shared by the three scripts\<close>

text \<open>
  A Python \<open>str\<close> is modelled as a \<^typ>\<open>string\<close>: a list of characters, each read as a
  code point below 256. Exceptions are values of \<open>py_error\<close>; a function that may raise
  returns a sum whose left injection is the exception.
\<close>

datatype py_error = ValueError | StopIteration | IndexError | KeyError | OtherError string

text \<open>Decimal rendering of a natural number, as \<open>str(n)\<close> and an f-string do.\<close>

definition digit_char :: "nat \<Rightarrow> char" where
  "digit_char d = char_of (48 + d)"

function str_nat :: "nat \<Rightarrow> string" where
  "str_nat n = (if n < 10 then [digit_char n] else str_nat (n div 10) @ [digit_char (n mod 10)])"
  by pat_completeness auto
termination
  by (relation "measure (\<lambda>n. n)") auto

declare str_nat.simps [simp del]

text \<open>
  \<open>str.strip()\<close> removes leading and trailing whitespace. Below code point 256 the
  characters on which \<open>str.isspace\<close> holds are the ones listed.
\<close>

definition py_isspace :: "char \<Rightarrow> bool" where
  "py_isspace c = ((of_char c :: nat) \<in> {9, 10, 11, 12, 13, 28, 29, 30, 31, 32, 133, 160})"

definition py_strip :: "string \<Rightarrow> string" where
  "py_strip s = rev (dropWhile py_isspace (rev (dropWhile py_isspace s)))"

text \<open>\<open>s.rstrip(chars)\<close> removes the trailing characters that occur in \<open>chars\<close>.\<close>

definition py_rstrip_chars :: "string \<Rightarrow> string \<Rightarrow> string" where
  "py_rstrip_chars chars s = rev (dropWhile (\<lambda>c. c \<in> set chars) (rev s))"

text \<open>
  \<open>str.lower()\<close>, character by character below code point 256: the ASCII capitals and the
  Latin-1 capitals (all of 192 to 222 except the multiplication sign 215) move up by 32.
\<close>

definition lower_char :: "char \<Rightarrow> char" where
  "lower_char c =
     (let n = (of_char c :: nat)
      in if (65 \<le> n \<and> n \<le> 90) \<or> (192 \<le> n \<and> n \<le> 222 \<and> n \<noteq> 215)
         then char_of (n + 32) else c)"

definition py_lower :: "string \<Rightarrow> string" where
  "py_lower s = map lower_char s"

text \<open>\<open>sub in s\<close>: the substring test, scanning the start positions from the left.\<close>

fun py_in :: "'a list \<Rightarrow> 'a list \<Rightarrow> bool" where
  "py_in sub [] = (sub = [])"
| "py_in sub (c # cs) = (prefix sub (c # cs) \<or> py_in sub cs)"

text \<open>
  \<open>s.replace(old, new)\<close>: the occurrences of \<open>old\<close> are found from the left and do not
  overlap; an empty \<open>old\<close> matches before every character and at the end.
\<close>

function py_replace :: "string \<Rightarrow> string \<Rightarrow> string \<Rightarrow> string" where
  "py_replace old new [] = (if old = [] then new else [])"
| "py_replace old new (c # cs) =
     (if old = [] then new @ c # py_replace old new cs
      else if prefix old (c # cs) then new @ py_replace old new (drop (length old) (c # cs))
      else c # py_replace old new cs)"
  by pat_completeness auto
termination
  by (relation "measure (\<lambda>(old, new, s). length s)") auto

text \<open>\<open>os.path.join(a, b)\<close> with two arguments, on a POSIX system.\<close>

definition path_join :: "string \<Rightarrow> string \<Rightarrow> string" where
  "path_join a b =
     (if prefix ''/'' b then b
      else if a = [] \<or> suffix ''/'' a then a @ b
      else a @ ''/'' @ b)"

text \<open>\<open>os.path.basename(p)\<close> on a POSIX system: what follows the last slash.\<close>

definition basename :: "string \<Rightarrow> string" where
  "basename p = rev (takeWhile (\<lambda>c. c \<noteq> CHR ''/'') (rev p))"

text \<open>Decimal rendering of an integer, as \<open>str(i)\<close> does.\<close>

definition str_int :: "int \<Rightarrow> string" where
  "str_int i = (if i < 0 then CHR ''-'' # str_nat (nat (- i)) else str_nat (nat i))"

text \<open>
  A Python \<open>dict\<close> keeps its keys in insertion order; an assignment to a key that is
  present replaces the value in place. It is modelled as an association list with
  \<open>map_of\<close> for the lookup.
\<close>

fun dict_set :: "'k \<Rightarrow> 'v \<Rightarrow> ('k \<times> 'v) list \<Rightarrow> ('k \<times> 'v) list" where
  "dict_set k v [] = [(k, v)]"
| "dict_set k v ((a, b) # ps) = (if a = k then (k, v) # ps else (a, b) # dict_set k v ps)"

section \<open>Query runner (app.py): the query pages kept in the session\<close>

text \<open>
  One entry of \<open>st.session_state.query_pages\<close>. The type of a query result (a dataframe) is
  left as a parameter.
\<close>

record 'r page =
  pid :: string
  title :: string
  query :: string
  last_result :: "'r option"

record 'r session =
  query_pages :: "'r page list"
  active_page_id :: string
  page_selector_id :: string
  is_switching_page :: bool
  run_id :: nat

text \<open>The session as the script sets it up on a first run, from a fresh identifier.\<close>

definition init_session :: "string \<Rightarrow> 'r session" where
  "init_session first_id =
     \<lparr> query_pages = [\<lparr> pid = first_id, title = ''Query 1'',
                         query = ''SELECT * FROM database'', last_result = None \<rparr>],
       active_page_id = first_id,
       page_selector_id = first_id,
       is_switching_page = False,
       run_id = 0 \<rparr>"

text \<open>
  \<open>add_new_page\<close>: the fresh identifier \<open>str(uuid.uuid4())\<close> is an argument. With ten pages
  the function only shows a toast and returns.
\<close>

definition add_new_page :: "string \<Rightarrow> 'r session \<Rightarrow> 'r session" where
  "add_new_page new_id st =
     (if length (query_pages st) \<ge> 10 then st
      else st \<lparr> query_pages := query_pages st @
                    [\<lparr> pid = new_id,
                       title = ''Query '' @ str_nat (length (query_pages st) + 1),
                       query = ''SELECT * FROM database'',
                       last_result = None \<rparr>],
                active_page_id := new_id,
                is_switching_page := True \<rparr>)"

text \<open>
  \<open>next(i for i, p in enumerate(pages) if p["id"] == page_id)\<close>: the first index whose page has
  the identifier; \<open>StopIteration\<close> when there is none.
\<close>

fun find_page_index :: "string \<Rightarrow> 'r page list \<Rightarrow> py_error + nat" where
  "find_page_index page_id [] = Inl StopIteration"
| "find_page_index page_id (p # ps) =
     (if pid p = page_id then Inr 0
      else (case find_page_index page_id ps of
              Inl e \<Rightarrow> Inl e
            | Inr i \<Rightarrow> Inr (Suc i)))"

text \<open>\<open>pages.pop(idx)\<close>, for an index in range.\<close>

definition pop_at :: "nat \<Rightarrow> 'a list \<Rightarrow> 'a list" where
  "pop_at idx xs = take idx xs @ drop (Suc idx) xs"

text \<open>\<open>xs[i]\<close> for a non-negative index: \<open>IndexError\<close> out of range.\<close>

definition py_index :: "'a list \<Rightarrow> nat \<Rightarrow> py_error + 'a" where
  "py_index xs i = (if i < length xs then Inr (xs ! i) else Inl IndexError)"

text \<open>
  \<open>remove_page\<close>. An exception of the index search leaves the session as it was, since it is
  raised before the list is changed. \<open>max(0, idx - 1)\<close> is \<open>idx - 1\<close> on naturals.
\<close>

definition remove_page :: "string \<Rightarrow> 'r session \<Rightarrow> py_error + 'r session" where
  "remove_page page_id st =
     (if length (query_pages st) \<le> 1 then Inr st
      else (case find_page_index page_id (query_pages st) of
              Inl e \<Rightarrow> Inl e
            | Inr idx \<Rightarrow>
                (let pages = pop_at idx (query_pages st);
                     st1 = st \<lparr> query_pages := pages \<rparr>
                 in if active_page_id st = page_id
                    then (case py_index pages (idx - 1) of
                            Inl e \<Rightarrow> Inl e
                          | Inr p \<Rightarrow> Inr (st1 \<lparr> active_page_id := pid p,
                                                 is_switching_page := True \<rparr>))
                    else Inr st1)))"

text \<open>\<open>_on_page_change\<close>: the radio selector's callback.\<close>

definition on_page_change :: "'r session \<Rightarrow> 'r session" where
  "on_page_change st =
     st \<lparr> active_page_id := page_selector_id st, is_switching_page := True \<rparr>"

text \<open>
  Renaming a page, as the title input of \<open>main\<close> does: \<open>main\<close> takes the page with
  \<open>next(p for p in pages if p["id"] == page_id)\<close>, the first page that carries the
  identifier, and assigns its title. Only that page changes; when no page carries the
  identifier the search raises before anything is assigned and the list stays as it was.
\<close>

fun set_first_title :: "string \<Rightarrow> string \<Rightarrow> 'r page list \<Rightarrow> 'r page list" where
  "set_first_title page_id new_title [] = []"
| "set_first_title page_id new_title (p # ps) =
     (if pid p = page_id then p \<lparr> title := new_title \<rparr> # ps
      else p # set_first_title page_id new_title ps)"

definition rename_page :: "string \<Rightarrow> string \<Rightarrow> 'r session \<Rightarrow> 'r session" where
  "rename_page page_id new_title st =
     st \<lparr> query_pages := set_first_title page_id new_title (query_pages st) \<rparr>"

text \<open>
  The operations on query tabs that the user interface offers. A removal that raises leaves
  the session unchanged.
\<close>

datatype tab_op = AddPage string | RemovePage string | SelectPage | RenamePage string string

fun tab_step :: "'r session \<Rightarrow> tab_op \<Rightarrow> 'r session" where
  "tab_step st (AddPage new_id) = add_new_page new_id st"
| "tab_step st (RemovePage page_id) =
     (case remove_page page_id st of Inl e \<Rightarrow> st | Inr st' \<Rightarrow> st')"
| "tab_step st SelectPage = on_page_change st"
| "tab_step st (RenamePage page_id t) = rename_page page_id t st"

definition pages_inv :: "'r session \<Rightarrow> bool" where
  "pages_inv st = (1 \<le> length (query_pages st) \<and> length (query_pages st) \<le> 10)"

text \<open>
  The Run handler of \<open>main\<close>. \<open>build_query\<close> is the text handed to
  \<open>duckdb.query\<close>, or the \<open>ValueError\<close> raised for an empty query.
\<close>

definition build_query :: "string \<Rightarrow> py_error + string" where
  "build_query page_query =
     (let q = py_rstrip_chars '';'' (py_strip page_query)
      in if q = [] then Inl ValueError
         else (let q' = (if \<not> py_in ''limit'' (py_lower q) then q @ '' LIMIT 300'' else q)
               in Inr (py_replace ''database'' ''df'' q')))"

text \<open>
  What it means for a query text to contain \<open>limit\<close> when case is ignored, said without
  any lower-casing: somewhere in the text stand five consecutive characters, an \<open>l\<close>, an
  \<open>i\<close>, an \<open>m\<close>, an \<open>i\<close> and a \<open>t\<close>, each in either case.
\<close>

definition limit_word :: "string \<Rightarrow> bool" where
  "limit_word w =
     (case w of
        [a, b, c, d, e] \<Rightarrow>
          (a = CHR ''l'' \<or> a = CHR ''L'') \<and> (b = CHR ''i'' \<or> b = CHR ''I'') \<and>
          (c = CHR ''m'' \<or> c = CHR ''M'') \<and> (d = CHR ''i'' \<or> d = CHR ''I'') \<and>
          (e = CHR ''t'' \<or> e = CHR ''T'')
      | _ \<Rightarrow> False)"

definition mentions_limit :: "string \<Rightarrow> bool" where
  "mentions_limit q = (\<exists>u w v. q = u @ w @ v \<and> limit_word w)"

text \<open>
  The outcome of one Run: the page and the run counter afterwards, the texts that were
  handed to the query engine, and whether \<open>st.error\<close> was called. The engine is a
  parameter; it returns a result or raises.
\<close>

record 'r run_result =
  page_after :: "'r page"
  run_id_after :: nat
  executed :: "string list"
  error_shown :: bool

definition run_sql :: "(string \<Rightarrow> py_error + 'r) \<Rightarrow> 'r page \<Rightarrow> nat \<Rightarrow> 'r run_result" where
  "run_sql engine page rid =
     (case build_query (query page) of
        Inl e \<Rightarrow> \<lparr> page_after = page \<lparr> last_result := None \<rparr>, run_id_after = rid,
                   executed = [], error_shown = True \<rparr>
      | Inr text \<Rightarrow>
          (case engine text of
             Inl e \<Rightarrow> \<lparr> page_after = page \<lparr> last_result := None \<rparr>, run_id_after = rid,
                        executed = [text], error_shown = True \<rparr>
           | Inr res \<Rightarrow> \<lparr> page_after = page \<lparr> last_result := Some res \<rparr>,
                          run_id_after = rid + 1,
                          executed = [text], error_shown = False \<rparr>))"

section \<open>Reconciler (gen\_gl.py)\<close>

subsection \<open>Classifying the extracted files\<close>

text \<open>
  The loop over \<open>os.walk(temp_dir)\<close> in the ZIP handler. The walk is a list of
  \<open>(root, dirs, files)\<close> entries; the loop keeps the path of the reference workbook and the
  list of source file names.
\<close>

record zip_scan =
  tlf_path :: "string option"
  source_files :: "string list"

fun scan_files :: "string \<Rightarrow> string list \<Rightarrow> zip_scan \<Rightarrow> zip_scan" where
  "scan_files root [] st = st"
| "scan_files root (file # files) st =
     scan_files root files
       (if prefix ''.'' file \<or> py_in ''__MACOSX'' root then st
        else if py_in ''TLF'' file then st \<lparr> tlf_path := Some (path_join root file) \<rparr>
        else st \<lparr> source_files := source_files st @ [file] \<rparr>)"

fun scan_walk :: "(string \<times> string list \<times> string list) list \<Rightarrow> zip_scan \<Rightarrow> zip_scan" where
  "scan_walk [] st = st"
| "scan_walk ((root, dirs, files) # rest) st = scan_walk rest (scan_files root files st)"

definition identify_files :: "(string \<times> string list \<times> string list) list \<Rightarrow> zip_scan" where
  "identify_files walk = scan_walk walk \<lparr> tlf_path = None, source_files = [] \<rparr>"

text \<open>
  The files the claim is about: every file of the walk, paired with its directory, that is
  neither hidden nor under a directory whose path contains \<open>__MACOSX\<close>.
\<close>

definition visible_files :: "(string \<times> string list \<times> string list) list \<Rightarrow> (string \<times> string) list" where
  "visible_files walk =
     concat (map (\<lambda>(root, dirs, files).
                    map (\<lambda>file. (root, file))
                      (filter (\<lambda>file. \<not> (prefix ''.'' file \<or> sublist ''__MACOSX'' root)) files))
                 walk)"

definition is_reference :: "string \<times> string \<Rightarrow> bool" where
  "is_reference rf = sublist ''TLF'' (snd rf)"

text \<open>The path of the last reference file of a list, or the given default when there is none.\<close>

definition last_reference :: "string option \<Rightarrow> (string \<times> string) list \<Rightarrow> string option" where
  "last_reference dflt rfs =
     (case filter is_reference rfs of
        [] \<Rightarrow> dflt
      | x # xs \<Rightarrow> Some (path_join (fst (last (x # xs))) (snd (last (x # xs)))))"

subsection \<open>Date tokens in a file name\<close>

text \<open>
  \<open>\d\<close> below code point 256 matches the ASCII digits. The patterns are compiled with
  \<open>re.IGNORECASE\<close>, so a letter of a pattern matches in either case.
\<close>

definition is_digit :: "char \<Rightarrow> bool" where
  "is_digit c = (c \<in> set ''0123456789'')"

text \<open>
  The pattern \<open>D(?P<d>\d{6})\<close> matched at the head of a string; the result is the group
  \<open>d\<close>.
\<close>

definition match_D6 :: "string \<Rightarrow> string option" where
  "match_D6 s =
     (case s of
        [] \<Rightarrow> None
      | c # r \<Rightarrow>
          if (c = CHR ''D'' \<or> c = CHR ''d'') \<and> 6 \<le> length r \<and> list_all is_digit (take 6 r)
          then Some (take 6 r) else None)"

text \<open>
  The pattern \<open>[-_]?D(?P<d>\d{6})\<close> matched at the head of a string: the optional separator
  is tried first, and given up when the rest does not match after it.
\<close>

definition match_d_date :: "string \<Rightarrow> string option" where
  "match_d_date s =
     (case s of
        [] \<Rightarrow> None
      | c # r \<Rightarrow>
          if c = CHR ''-'' \<or> c = CHR ''_''
          then (case match_D6 r of Some d \<Rightarrow> Some d | None \<Rightarrow> match_D6 s)
          else match_D6 s)"

text \<open>The pattern \<open>JV(?P<jv>\d{8})\<close> matched at the head of a string.\<close>

definition match_jv :: "string \<Rightarrow> string option" where
  "match_jv s =
     (case s of
        a # b # r \<Rightarrow>
          if (a = CHR ''J'' \<or> a = CHR ''j'') \<and> (b = CHR ''V'' \<or> b = CHR ''v'') \<and>
             8 \<le> length r \<and> list_all is_digit (take 8 r)
          then Some (take 8 r) else None
      | _ \<Rightarrow> None)"

text \<open>
  \<open>re.search\<close>: the pattern is tried at every start position from the left, the first
  success wins.
\<close>

fun re_search :: "(string \<Rightarrow> 'a option) \<Rightarrow> string \<Rightarrow> 'a option" where
  "re_search m [] = m []"
| "re_search m (c # cs) = (case m (c # cs) of Some g \<Rightarrow> Some g | None \<Rightarrow> re_search m cs)"

definition parse_dates_from_filename :: "string \<Rightarrow> string option \<times> string option" where
  "parse_dates_from_filename filename =
     (let base = basename filename;
          d_date = re_search match_d_date base;
          jv_date = (case re_search match_jv base of
                       None \<Rightarrow> None
                     | Some jv_full \<Rightarrow>
                         Some (take 2 (drop 2 jv_full) @ take 2 (drop 4 jv_full) @
                               take 2 (drop 6 jv_full)))
      in (d_date, jv_date))"

text \<open>
  The positions of a base name at which a D-date token stands (a \<open>D\<close> or \<open>d\<close> followed by
  six digits) and at which a JV token stands (\<open>JV\<close> in either case followed by eight
  digits).
\<close>

definition d_token_at :: "string \<Rightarrow> nat \<Rightarrow> bool" where
  "d_token_at base p =
     (p + 7 \<le> length base \<and> (base ! p = CHR ''D'' \<or> base ! p = CHR ''d'') \<and>
      list_all is_digit (take 6 (drop (p + 1) base)))"

definition jv_token_at :: "string \<Rightarrow> nat \<Rightarrow> bool" where
  "jv_token_at base p =
     (p + 10 \<le> length base \<and> (base ! p = CHR ''J'' \<or> base ! p = CHR ''j'') \<and>
      (base ! (p + 1) = CHR ''V'' \<or> base ! (p + 1) = CHR ''v'') \<and>
      list_all is_digit (take 8 (drop (p + 2) base)))"

subsection \<open>Choosing one file per D-date\<close>

text \<open>
  \<open>fn.lower().endswith(valid_exts)\<close> with the tuple of recognised extensions.
\<close>

definition valid_exts :: "string list" where
  "valid_exts = [''.csv'', ''.trf'', ''.txt'', ''.xls'', ''.xlsx'']"

definition has_valid_ext :: "string \<Rightarrow> bool" where
  "has_valid_ext fn = list_ex (\<lambda>e. suffix e (py_lower fn)) valid_exts"

text \<open>
  \<open>int(jv_date) if jv_date and jv_date.isdigit() else -1\<close>. A JV token consists of
  characters matched by \<open>\d\<close>, on which \<open>isdigit\<close> holds and \<open>int\<close> does not raise.
\<close>

definition digits_value :: "string \<Rightarrow> nat" where
  "digits_value s = foldl (\<lambda>a c. 10 * a + (of_char c - 48)) 0 s"

definition jv_int_of :: "string option \<Rightarrow> int" where
  "jv_int_of jv =
     (case jv of
        None \<Rightarrow> - 1
      | Some s \<Rightarrow> if s \<noteq> [] \<and> list_all is_digit s then int (digits_value s) else - 1)"

text \<open>
  A value of the dictionary \<open>chosen\<close>: the keys \<open>file\<close>, \<open>d_date\<close>, \<open>jv_date\<close> and, for
  the entries stored under a D-date, \<open>_jv_int\<close>.
\<close>

record entry =
  file_path :: string
  d_date :: "string option"
  jv_date :: "string option"
  jv_int :: "int option"

text \<open>One pass of the loop body over a file name, on the dictionary \<open>chosen\<close>.\<close>

definition pick_step :: "string \<Rightarrow> (string \<times> entry) list \<Rightarrow> string \<Rightarrow> (string \<times> entry) list" where
  "pick_step folder_path chosen fn =
     (let fp = path_join folder_path fn
      in if \<not> has_valid_ext fn then chosen
         else (case parse_dates_from_filename fn of
                 (d, jv) \<Rightarrow>
                   (let ji = jv_int_of jv
                    in case d of
                         None \<Rightarrow>
                           dict_set (''__NO_D__::'' @ fn)
                             \<lparr> file_path = fp, d_date = None, jv_date = jv, jv_int = None \<rparr>
                             chosen
                       | Some dd \<Rightarrow>
                           (case map_of chosen dd of
                              None \<Rightarrow>
                                dict_set dd
                                  \<lparr> file_path = fp, d_date = Some dd, jv_date = jv,
                                    jv_int = Some ji \<rparr> chosen
                            | Some cur \<Rightarrow>
                                if ji > (case jv_int cur of None \<Rightarrow> - 1 | Some x \<Rightarrow> x)
                                then dict_set dd
                                       \<lparr> file_path = fp, d_date = Some dd, jv_date = jv,
                                         jv_int = Some ji \<rparr> chosen
                                else chosen))))"

text \<open>
  \<open>pick_latest_files_by_duplicate_d_date\<close>: the loop, the removal of \<open>_jv_int\<close> from every
  value, and the stable sort by the lower-cased base name of the file.
\<close>

definition pick_latest_files_by_duplicate_d_date :: "string \<Rightarrow> string list \<Rightarrow> entry list" where
  "pick_latest_files_by_duplicate_d_date folder_path files_list =
     (let chosen = foldl (pick_step folder_path) [] files_list;
          results = map (\<lambda>(k, v). v \<lparr> jv_int := None \<rparr>) chosen
      in sort_key (\<lambda>x. py_lower (basename (file_path x))) results)"

text \<open>
  The words of the specification: the D-date and the JV token of a file name, and the rank
  by which files of one D-date are compared, the number that the JV token spells, with a
  missing token below every number.
\<close>

definition d_of :: "string \<Rightarrow> string option" where
  "d_of fn = fst (parse_dates_from_filename fn)"

definition jv_of :: "string \<Rightarrow> string option" where
  "jv_of fn = snd (parse_dates_from_filename fn)"

definition jv_rank :: "string \<Rightarrow> nat option" where
  "jv_rank fn = map_option digits_value (jv_of fn)"

text \<open>The entry that the result holds for a file.\<close>

definition result_entry :: "string \<Rightarrow> string \<Rightarrow> entry" where
  "result_entry folder_path fn =
     \<lparr> file_path = path_join folder_path fn, d_date = d_of fn, jv_date = jv_of fn,
       jv_int = None \<rparr>"

text \<open>
  The files with a recognised extension that yield a given D-date, and those that yield
  none, in list order.
\<close>

definition group_of :: "string list \<Rightarrow> string \<Rightarrow> string list" where
  "group_of files_list d = filter (\<lambda>fn. has_valid_ext fn \<and> d_of fn = Some d) files_list"

definition no_d_files :: "string list \<Rightarrow> string list" where
  "no_d_files files_list = filter (\<lambda>fn. has_valid_ext fn \<and> d_of fn = None) files_list"

text \<open>
  The file that a left-to-right comparison keeps: the current one gives way only to a
  strictly greater rank.
\<close>

fun winner_from :: "(string \<Rightarrow> 'a::linorder) \<Rightarrow> string \<Rightarrow> string list \<Rightarrow> string" where
  "winner_from rank cur [] = cur"
| "winner_from rank cur (f # fs) = winner_from rank (if rank f > rank cur then f else cur) fs"

text \<open>What the dictionary \<open>chosen\<close> holds under a key after the loop has seen a list.\<close>

definition chosen_spec :: "string \<Rightarrow> string list \<Rightarrow> string \<Rightarrow> entry option" where
  "chosen_spec folder_path files_list k =
     (case group_of files_list k of
        w # ws \<Rightarrow>
          (let b = winner_from (\<lambda>fn. jv_int_of (jv_of fn)) w ws
           in Some ((result_entry folder_path b) \<lparr> jv_int := Some (jv_int_of (jv_of b)) \<rparr>))
      | [] \<Rightarrow>
          if prefix ''__NO_D__::'' k \<and> drop 10 k \<in> set (no_d_files files_list)
          then Some (result_entry folder_path (drop 10 k)) else None)"

section \<open>Merger (Gen\_database.py)\<close>

text \<open>
  A dataframe read with \<open>dtype=str\<close>: column labels, the row index, and the rows, every
  cell a string or missing. A column label is the header text or, for a numeric header,
  an integer.
\<close>

datatype label = LStr string | LInt int

fun label_str :: "label \<Rightarrow> string" where
  "label_str (LStr s) = s"
| "label_str (LInt i) = str_int i"

record frame =
  columns :: "label list"
  row_index :: "nat list"
  rows :: "string option list list"

text \<open>Selection by a boolean mask, as \<open>df.loc[:, mask]\<close> and boolean row indexing do.\<close>

definition select_mask :: "bool list \<Rightarrow> 'a list \<Rightarrow> 'a list" where
  "select_mask bs xs = map snd (filter fst (zip bs xs))"

text \<open>
  \<open>df.loc[:, ~df.columns.astype(str).str.contains(r"^Unnamed")]\<close>: the pattern is anchored,
  so the column mask is false exactly on the labels whose text starts with \<open>Unnamed\<close>.
\<close>

definition drop_unnamed :: "frame \<Rightarrow> frame" where
  "drop_unnamed df =
     (let col_mask = map (\<lambda>c. \<not> prefix ''Unnamed'' (label_str c)) (columns df)
      in df \<lparr> columns := select_mask col_mask (columns df),
              rows := map (select_mask col_mask) (rows df) \<rparr>)"

text \<open>\<open>df.dropna(how="all")\<close>: a row stays when some cell of it is present.\<close>

definition dropna_all :: "frame \<Rightarrow> frame" where
  "dropna_all df =
     (let keep = map (\<lambda>r. list_ex (\<lambda>c. c \<noteq> None) r) (rows df)
      in df \<lparr> row_index := select_mask keep (row_index df),
              rows := select_mask keep (rows df) \<rparr>)"

text \<open>
  \<open>pd.concat(frames, ignore_index=True)\<close>: the columns are the union of the frames'
  columns in order of first appearance, every row is aligned to them with missing cells
  where its frame has no such column, and the index is renumbered from zero.
\<close>

fun first_seen :: "'a list \<Rightarrow> 'a list \<Rightarrow> 'a list" where
  "first_seen seen [] = []"
| "first_seen seen (x # xs) =
     (if x \<in> set seen then first_seen seen xs else x # first_seen (seen @ [x]) xs)"

definition reindex_row :: "label list \<Rightarrow> label list \<Rightarrow> string option list \<Rightarrow> string option list" where
  "reindex_row cols all_cols r =
     map (\<lambda>c. case map_of (zip cols r) c of None \<Rightarrow> None | Some v \<Rightarrow> v) all_cols"

definition concat_frames :: "frame list \<Rightarrow> frame" where
  "concat_frames fs =
     (let all_cols = first_seen [] (concat (map columns fs));
          all_rows = concat (map (\<lambda>f. map (reindex_row (columns f) all_cols) (rows f)) fs)
      in \<lparr> columns = all_cols, row_index = [0..<length all_rows], rows = all_rows \<rparr>)"

text \<open>
  The statistics that \<open>merge_excel_to_parquet_bytes\<close> returns beside the bytes. The size is
  kept in bytes; the script divides it by \<open>1024 * 1024\<close> for display.
\<close>

record stats =
  sheet_count :: nat
  merged_rows :: nat
  per_sheet_rows :: "(string \<times> nat) list"
  parquet_size :: nat

text \<open>
  The loop over \<open>all_sheets.items()\<close>, with the two accumulators \<open>all_data_frames\<close> and
  \<open>per_sheet_rows\<close>.
\<close>

fun clean_sheets ::
  "(string \<times> frame) list \<Rightarrow> frame list \<times> (string \<times> nat) list \<Rightarrow> frame list \<times> (string \<times> nat) list"
where
  "clean_sheets [] acc = acc"
| "clean_sheets ((sheet_name, df) # rest) (all_data_frames, psr) =
     (let df1 = drop_unnamed df;
          df2 = dropna_all df1;
          psr' = dict_set sheet_name (length (rows df2)) psr
      in clean_sheets rest
           (if length (rows df2) > 0 then all_data_frames @ [df2] else all_data_frames, psr'))"

text \<open>
  \<open>merge_excel_to_parquet_bytes\<close>. The workbook is the result of
  \<open>pd.read_excel(..., sheet_name=None, dtype=str)\<close>, the sheets in workbook order; the
  parquet writer is a parameter that turns a frame into bytes.
\<close>

definition merge_excel_to_parquet_bytes ::
  "(frame \<Rightarrow> string) \<Rightarrow> (string \<times> frame) list \<Rightarrow> py_error + (string \<times> stats)"
where
  "merge_excel_to_parquet_bytes to_parquet all_sheets =
     (case clean_sheets all_sheets ([], []) of
        (all_data_frames, psr) \<Rightarrow>
          if all_data_frames = [] then Inl ValueError
          else (let merged_df = concat_frames all_data_frames;
                    parquet_bytes = to_parquet merged_df
                in Inr (parquet_bytes,
                        \<lparr> sheet_count = length all_sheets,
                          merged_rows = length (rows merged_df),
                          per_sheet_rows = psr,
                          parquet_size = length parquet_bytes \<rparr>)))"

text \<open>
  The cleaning of one sheet as the specification words it: the columns whose label text
  does not begin with \<open>Unnamed\<close>, each row cut down to the cells under those columns, and
  then only the rows in which some cell is present, each with the index it had.
\<close>

definition named_column :: "label \<Rightarrow> bool" where
  "named_column c = (take 7 (label_str c) \<noteq> ''Unnamed'')"

definition cleaned_sheet :: "frame \<Rightarrow> frame" where
  "cleaned_sheet df =
     (let cut = (\<lambda>r. map snd (filter (\<lambda>(c, v). named_column c) (zip (columns df) r)));
          present = (\<lambda>r. \<exists>v \<in> set r. v \<noteq> None)
      in \<lparr> columns = filter named_column (columns df),
           row_index = map fst (filter (\<lambda>(i, r). present (cut r))
                                  (zip (row_index df) (rows df))),
           rows = filter present (map cut (rows df)) \<rparr>)"

text \<open>
  The sheets that contribute to the output: the cleaned sheets, in workbook order, that
  still have a row.
\<close>

definition contributing :: "(string \<times> frame) list \<Rightarrow> frame list" where
  "contributing all_sheets =
     filter (\<lambda>f. rows f \<noteq> []) (map (\<lambda>(sheet_name, df). cleaned_sheet df) all_sheets)"

section \<open>Facts about the string operations\<close>

lemma py_in_sublist: "py_in sub s = sublist sub s"
  by (induction s) (auto simp: sublist_Cons_right)

lemma rev_dropWhile_split:
  "xs = rev (dropWhile P (rev xs)) @ rev (takeWhile P (rev xs))"
proof -
  have "rev (dropWhile P (rev xs)) @ rev (takeWhile P (rev xs)) =
        rev (takeWhile P (rev xs) @ dropWhile P (rev xs))"
    by (simp only: rev_append)
  also have "\<dots> = xs"
    by (simp only: takeWhile_dropWhile_id rev_rev_ident)
  finally show ?thesis by (rule sym)
qed

lemma py_strip_decomp:
  "\<exists>l r. s = l @ py_strip s @ r \<and> list_all py_isspace l \<and> list_all py_isspace r"
proof -
  let ?m = "dropWhile py_isspace s"
  have 1: "s = takeWhile py_isspace s @ ?m" by simp
  have 2: "?m = py_strip s @ rev (takeWhile py_isspace (rev ?m))"
    unfolding py_strip_def by (rule rev_dropWhile_split)
  have a: "list_all py_isspace (takeWhile py_isspace s)"
    by (simp add: list_all_iff) (meson set_takeWhileD)
  have b: "list_all py_isspace (rev (takeWhile py_isspace (rev ?m)))"
    by (simp add: list_all_iff) (meson set_takeWhileD)
  from 1 2 have "s = takeWhile py_isspace s @ py_strip s @ rev (takeWhile py_isspace (rev ?m))"
    by simp
  with a b show ?thesis by blast
qed

lemma py_strip_ends:
  "py_strip s \<noteq> [] \<Longrightarrow> \<not> py_isspace (hd (py_strip s)) \<and> \<not> py_isspace (last (py_strip s))"
proof -
  assume ne: "py_strip s \<noteq> []"
  let ?m = "dropWhile py_isspace s"
  from ne have d: "dropWhile py_isspace (rev ?m) \<noteq> []" by (simp add: py_strip_def)
  then have l: "\<not> py_isspace (hd (dropWhile py_isspace (rev ?m)))" by (rule hd_dropWhile)
  have "last (py_strip s) = hd (dropWhile py_isspace (rev ?m))"
    using d by (simp add: py_strip_def last_rev)
  with l have L: "\<not> py_isspace (last (py_strip s))" by simp
  have mne: "?m \<noteq> []"
  proof
    assume "?m = []"
    then have "dropWhile py_isspace (rev ?m) = []" by (simp only: rev.simps dropWhile.simps)
    with d show False by (rule notE)
  qed
  then have h: "\<not> py_isspace (hd ?m)" by (rule hd_dropWhile)
  have "?m = py_strip s @ rev (takeWhile py_isspace (rev ?m))"
    unfolding py_strip_def by (rule rev_dropWhile_split)
  with ne have "hd ?m = hd (py_strip s)" by (metis hd_append2)
  with h L show ?thesis by simp
qed

lemma takeWhile_eq_replicate: "takeWhile (\<lambda>c. c = a) xs = replicate (length (takeWhile (\<lambda>c. c = a) xs)) a"
  by (induction xs) auto

lemma py_rstrip_decomp:
  "\<exists>k. t = py_rstrip_chars [a] t @ replicate k a"
proof -
  have "t = rev (dropWhile (\<lambda>c. c = a) (rev t)) @ rev (takeWhile (\<lambda>c. c = a) (rev t))"
    by (rule rev_dropWhile_split)
  then have "t = py_rstrip_chars [a] t @ rev (takeWhile (\<lambda>c. c = a) (rev t))"
    by (simp add: py_rstrip_chars_def)
  moreover have "rev (takeWhile (\<lambda>c. c = a) (rev t)) = replicate (length (takeWhile (\<lambda>c. c = a) (rev t))) a"
    using takeWhile_eq_replicate [of a "rev t"] by (metis rev_replicate)
  ultimately show ?thesis by metis
qed

lemma py_rstrip_last:
  "py_rstrip_chars [a] t \<noteq> [] \<Longrightarrow> last (py_rstrip_chars [a] t) \<noteq> a"
proof -
  assume ne: "py_rstrip_chars [a] t \<noteq> []"
  then have d: "dropWhile (\<lambda>c. c = a) (rev t) \<noteq> []" by (simp add: py_rstrip_chars_def)
  from hd_dropWhile [OF d] have "hd (dropWhile (\<lambda>c. c = a) (rev t)) \<noteq> a" by simp
  moreover have "last (py_rstrip_chars [a] t) = hd (dropWhile (\<lambda>c. c = a) (rev t))"
    using d by (simp add: py_rstrip_chars_def last_rev)
  ultimately show ?thesis by simp
qed

lemma py_replace_Cons_match:
  "old \<noteq> [] \<Longrightarrow> prefix old (c # cs) \<Longrightarrow>
   py_replace old new (c # cs) = new @ py_replace old new (drop (length old) (c # cs))"
  by simp

lemma py_replace_Cons_skip:
  "old \<noteq> [] \<Longrightarrow> \<not> prefix old (c # cs) \<Longrightarrow>
   py_replace old new (c # cs) = c # py_replace old new cs"
  by simp

lemma py_replace_absent:
  "old \<noteq> [] \<Longrightarrow> \<not> sublist old s \<Longrightarrow> py_replace old new s = s"
proof (induction s)
  case Nil
  then show ?case by simp
next
  case (Cons c cs)
  from Cons.prems(2) have "\<not> prefix old (c # cs)" and "\<not> sublist old cs"
    by (auto simp: sublist_Cons_right)
  with Cons show ?case by simp
qed

lemma py_replace_first:
  assumes "old \<noteq> []" and "\<not> sublist old (u @ butlast old)"
  shows "py_replace old new (u @ old @ v) = u @ new @ py_replace old new v"
  using assms(2)
proof (induction u)
  case Nil
  from assms(1) obtain c cs where o: "old = c # cs" by (cases old) auto
  have "py_replace old new (old @ v) = new @ py_replace old new (drop (length old) (old @ v))"
    unfolding o by simp
  then show ?case by simp
next
  case (Cons a u)
  have np: "\<not> prefix old (a # u @ old @ v)"
  proof
    assume p: "prefix old (a # u @ old @ v)"
    have "length old \<le> length ((a # u) @ butlast old)" by simp
    moreover have "(a # u) @ old @ v = ((a # u) @ butlast old) @ (last old # v)"
      using assms(1) by simp
    ultimately have "prefix old ((a # u) @ butlast old)"
      using p by (metis append_Cons prefix_length_prefix prefixI)
    then have "sublist old ((a # u) @ butlast old)" by (rule prefix_imp_sublist)
    with Cons.prems show False by simp
  qed
  from Cons.prems have "\<not> sublist old (u @ butlast old)"
    by (auto simp: sublist_Cons_right)
  from Cons.IH [OF this] np assms(1) show ?case by simp
qed

lemma py_replace_prefix_copied:
  "old \<noteq> [] \<Longrightarrow> new \<noteq> [] \<Longrightarrow> hd new \<notin> set p \<Longrightarrow> prefix p (py_replace old new s) \<Longrightarrow> prefix p s"
proof (induction s arbitrary: p)
  case Nil
  then show ?case by simp
next
  case (Cons c cs)
  show ?case
  proof (cases p)
    case Nil
    then show ?thesis by simp
  next
    case (Cons a p')
    show ?thesis
    proof (cases "prefix old (c # cs)")
      case True
      with Cons.prems(1) have "py_replace old new (c # cs) = new @ py_replace old new (drop (length old) (c # cs))"
        by simp
      with Cons.prems(4) have "prefix p (new @ py_replace old new (drop (length old) (c # cs)))"
        by simp
      with \<open>p = a # p'\<close> Cons.prems(2) have "a = hd new"
        by (cases new) auto
      with \<open>p = a # p'\<close> Cons.prems(3) show ?thesis by simp
    next
      case False
      with Cons.prems(1) have "py_replace old new (c # cs) = c # py_replace old new cs" by simp
      with Cons.prems(4) \<open>p = a # p'\<close> have ac: "a = c" and pp: "prefix p' (py_replace old new cs)"
        by auto
      from Cons.prems(3) \<open>p = a # p'\<close> have "hd new \<notin> set p'" by simp
      from Cons.IH [OF Cons.prems(1,2) this pp] ac \<open>p = a # p'\<close> show ?thesis by simp
    qed
  qed
qed

lemma database_gone: "\<not> sublist ''database'' (py_replace ''database'' ''df'' s)"
proof (induction "length s" arbitrary: s rule: less_induct)
  case less
  show ?case
  proof (cases s)
    case Nil
    then show ?thesis by simp
  next
    case (Cons c cs)
    show ?thesis
    proof (cases "prefix ''database'' (c # cs)")
      case True
      have e: "py_replace ''database'' ''df'' (c # cs) =
          ''df'' @ py_replace ''database'' ''df'' (drop (length ''database'') (c # cs))"
        by (rule py_replace_Cons_match [OF _ True]) simp
      have "length (drop (length ''database'') (c # cs)) < length s"
        using Cons by simp
      then have "\<not> sublist ''database''
                   (py_replace ''database'' ''df'' (drop (length ''database'') (c # cs)))"
        by (rule less)
      then show ?thesis
        unfolding Cons e by (simp add: sublist_Cons_right del: drop_Suc_Cons)
    next
      case False
      have e: "py_replace ''database'' ''df'' (c # cs) = c # py_replace ''database'' ''df'' cs"
        by (rule py_replace_Cons_skip [OF _ False]) simp
      have "length cs < length s" using Cons by simp
      then have ih: "\<not> sublist ''database'' (py_replace ''database'' ''df'' cs)"
        by (rule less)
      have "\<not> prefix ''database'' (c # py_replace ''database'' ''df'' cs)"
      proof
        assume p: "prefix ''database'' (c # py_replace ''database'' ''df'' cs)"
        then have c: "c = CHR ''d''" and "prefix ''atabase'' (py_replace ''database'' ''df'' cs)"
          by auto
        then have "prefix ''atabase'' cs"
          by (intro py_replace_prefix_copied [of "''database''" "''df''" "''atabase''" cs]) auto
        with c have "prefix ''database'' (c # cs)" by simp
        with False show False by blast
      qed
      with ih show ?thesis unfolding Cons e by (simp add: sublist_Cons_right)
    qed
  qed
qed

lemma dict_set_keys: "fst ` set (dict_set k v ps) = insert k (fst ` set ps)"
proof (induction ps)
  case Nil
  show ?case by simp
next
  case (Cons p ps)
  obtain a b where p: "p = (a, b)" by (cases p) auto
  show ?case
  proof (cases "a = k")
    case True
    then show ?thesis unfolding p by simp
  next
    case False
    then show ?thesis unfolding p using Cons.IH by auto
  qed
qed

lemma dict_set_fresh: "k \<notin> fst ` set ps \<Longrightarrow> dict_set k v ps = ps @ [(k, v)]"
proof (induction ps)
  case Nil
  show ?case by simp
next
  case (Cons p ps)
  obtain a b where p: "p = (a, b)" by (cases p) auto
  from Cons.prems p have "a \<noteq> k" and "k \<notin> fst ` set ps" by auto
  with Cons.IH show ?case unfolding p by simp
qed

lemma map_of_dict_set: "map_of (dict_set k v ps) = (map_of ps)(k \<mapsto> v)"
proof (induction ps)
  case Nil
  show ?case by simp
next
  case (Cons p ps)
  obtain a b where p: "p = (a, b)" by (cases p) auto
  show ?case unfolding p using Cons.IH by (auto simp: fun_eq_iff)
qed

lemma distinct_dict_set:
  "distinct (map fst ps) \<Longrightarrow> distinct (map fst (dict_set k v ps))"
proof (induction ps)
  case Nil
  show ?case by simp
next
  case (Cons p ps)
  obtain a b where p: "p = (a, b)" by (cases p) auto
  from Cons.prems p have d: "distinct (map fst ps)" and n: "a \<notin> fst ` set ps" by auto
  show ?case
  proof (cases "a = k")
    case True
    with d n show ?thesis unfolding p by simp
  next
    case False
    with Cons.IH [OF d] n show ?thesis unfolding p by (simp add: dict_set_keys)
  qed
qed

section \<open>Query tabs: the page count stays between 1 and 10\<close>

lemma find_page_index_bound:
  "find_page_index page_id ps = Inr i \<Longrightarrow> i < length ps \<and> pid (ps ! i) = page_id"
proof (induction ps arbitrary: i)
  case Nil
  then show ?case by simp
next
  case (Cons p ps)
  then show ?case
    by (cases "pid p = page_id") (auto split: sum.splits)
qed

lemma find_page_index_first:
  "find_page_index page_id ps = Inr i \<Longrightarrow> j < i \<Longrightarrow> pid (ps ! j) \<noteq> page_id"
proof (induction ps arbitrary: i j)
  case Nil
  then show ?case by simp
next
  case (Cons p ps)
  show ?case
  proof (cases "pid p = page_id")
    case True
    with Cons.prems show ?thesis by simp
  next
    case False
    with Cons.prems obtain i' where i': "find_page_index page_id ps = Inr i'" "i = Suc i'"
      by (auto split: sum.splits)
    show ?thesis
    proof (cases j)
      case 0
      with False show ?thesis by simp
    next
      case (Suc j')
      with Cons.prems(2) i' have "j' < i'" by simp
      from Cons.IH [OF i'(1) this] Suc show ?thesis by simp
    qed
  qed
qed

lemma length_pop_at: "idx < length xs \<Longrightarrow> length (pop_at idx xs) = length xs - 1"
  by (auto simp: pop_at_def)

lemma pop_at_nth_before: "j < idx \<Longrightarrow> idx < length xs \<Longrightarrow> pop_at idx xs ! j = xs ! j"
  by (simp add: pop_at_def nth_append)

lemma pop_at_nth_zero: "1 < length xs \<Longrightarrow> pop_at 0 xs ! 0 = xs ! 1"
  by (cases xs) (auto simp: pop_at_def)

lemma remove_page_cases:
  assumes "remove_page page_id st = Inr st'" and "1 < length (query_pages st)"
  obtains idx where "find_page_index page_id (query_pages st) = Inr idx"
    and "query_pages st' = pop_at idx (query_pages st)"
    and "active_page_id st = page_id \<Longrightarrow>
           active_page_id st' = pid (pop_at idx (query_pages st) ! (idx - 1))"
    and "active_page_id st \<noteq> page_id \<Longrightarrow> active_page_id st' = active_page_id st"
  using assms
  by (auto simp: remove_page_def Let_def py_index_def split: sum.splits if_splits)

lemma remove_page_length:
  assumes "remove_page page_id st = Inr st'" and "1 < length (query_pages st)"
  shows "length (query_pages st') = length (query_pages st) - 1"
proof -
  from assms obtain idx where idx: "find_page_index page_id (query_pages st) = Inr idx"
    and q: "query_pages st' = pop_at idx (query_pages st)"
    by (rule remove_page_cases)
  from find_page_index_bound [OF idx] have "idx < length (query_pages st)" by simp
  with q show ?thesis by (simp add: length_pop_at)
qed

lemma find_page_index_error:
  "find_page_index page_id ps = Inl e \<Longrightarrow> e = StopIteration"
  by (induction ps) (auto split: if_splits sum.splits)

lemma remove_page_error:
  assumes "remove_page page_id st = Inl e"
  shows "e = StopIteration \<and> find_page_index page_id (query_pages st) = Inl StopIteration"
proof (cases "find_page_index page_id (query_pages st)")
  case (Inl e')
  with find_page_index_error [OF Inl] assms show ?thesis
    by (auto simp: remove_page_def split: if_splits)
next
  case (Inr idx)
  from find_page_index_bound [OF Inr] have "idx < length (query_pages st)" by simp
  then have "1 < length (query_pages st) \<Longrightarrow> idx - 1 < length (pop_at idx (query_pages st))"
    by (simp add: length_pop_at)
  with Inr assms show ?thesis
    by (auto simp: remove_page_def Let_def py_index_def split: if_splits)
qed

lemma pages_inv_add: "pages_inv st \<Longrightarrow> pages_inv (add_new_page new_id st)"
  by (simp add: pages_inv_def add_new_page_def)

lemma pages_inv_remove:
  assumes "pages_inv st" and "remove_page page_id st = Inr st'"
  shows "pages_inv st'"
proof (cases "1 < length (query_pages st)")
  case True
  from remove_page_length [OF assms(2) True] assms(1) True show ?thesis
    by (auto simp: pages_inv_def)
next
  case False
  with assms show ?thesis by (simp add: remove_page_def)
qed

lemma length_set_first_title:
  "length (set_first_title page_id new_title ps) = length ps"
  by (induction ps) auto

lemma pages_inv_step: "pages_inv st \<Longrightarrow> pages_inv (tab_step st opn)"
proof (cases opn)
  case (AddPage new_id)
  assume "pages_inv st"
  with AddPage show ?thesis by (simp add: pages_inv_add)
next
  case (RemovePage page_id)
  assume "pages_inv st"
  with RemovePage show ?thesis
    by (cases "remove_page page_id st") (auto dest: pages_inv_remove)
next
  case SelectPage
  assume "pages_inv st"
  with SelectPage show ?thesis by (simp add: pages_inv_def on_page_change_def)
next
  case (RenamePage page_id t)
  assume "pages_inv st"
  with RenamePage show ?thesis
    by (simp add: pages_inv_def rename_page_def length_set_first_title)
qed

lemma remove_active_page:
  assumes r: "remove_page page_id st = Inr st'" and l: "1 < length (query_pages st)"
    and a: "active_page_id st = page_id"
  shows "\<exists>idx. find_page_index page_id (query_pages st) = Inr idx \<and>
           query_pages st' = pop_at idx (query_pages st) \<and>
           active_page_id st' =
             (if idx = 0 then pid (query_pages st ! 1) else pid (query_pages st ! (idx - 1))) \<and>
           active_page_id st' = (if idx = 0 then pid (hd (query_pages st'))
                                 else pid (query_pages st' ! (idx - 1)))"
proof -
  from remove_page_cases [OF r l]
  obtain idx where idx: "find_page_index page_id (query_pages st) = Inr idx"
    and q: "query_pages st' = pop_at idx (query_pages st)"
    and act: "active_page_id st = page_id \<Longrightarrow>
           active_page_id st' = pid (pop_at idx (query_pages st) ! (idx - 1))"
    by blast
  from find_page_index_bound [OF idx] have b: "idx < length (query_pages st)" by simp
  have ne: "pop_at idx (query_pages st) \<noteq> []"
    using l b length_pop_at [OF b] by (metis One_nat_def less_numeral_extra(3) list.size(3) zero_less_diff)
  show ?thesis
  proof (cases "idx = 0")
    case True
    with act [OF a] l q ne idx show ?thesis
      by (simp add: pop_at_nth_zero hd_conv_nth)
  next
    case False
    then have "idx - 1 < idx" by simp
    from pop_at_nth_before [OF this b] act [OF a] q idx False show ?thesis by simp
  qed
qed

text \<open>
  C8. Every operation on the query tabs keeps the number of pages between 1 and 10: the
  initial session has one page; adding a page when ten exist changes nothing, and otherwise
  adds one page; removing a page when only one exists changes nothing, and otherwise a
  removal that returns takes one page away; a removal never raises \<open>IndexError\<close>. After a
  removal of the active page, the active page is the one that preceded the removed page, or
  the first page of the remaining list when the removed page was the first.
\<close>

theorem query_tabs_page_count:
  "pages_inv (init_session first_id :: 'r session) \<and>
   (pages_inv (st :: 'r session) \<longrightarrow>
      pages_inv (tab_step st opn) \<and>
      (length (query_pages st) = 10 \<longrightarrow> add_new_page new_id st = st) \<and>
      (length (query_pages st) < 10 \<longrightarrow>
         length (query_pages (add_new_page new_id st)) = length (query_pages st) + 1) \<and>
      (length (query_pages st) = 1 \<longrightarrow> remove_page page_id st = Inr st) \<and>
      remove_page page_id st \<noteq> Inl IndexError \<and>
      (\<forall>st'. remove_page page_id st = Inr st' \<and> 1 < length (query_pages st) \<longrightarrow>
         length (query_pages st') = length (query_pages st) - 1 \<and>
         (active_page_id st = page_id \<longrightarrow>
            (\<exists>idx. find_page_index page_id (query_pages st) = Inr idx \<and>
               query_pages st' = pop_at idx (query_pages st) \<and>
               active_page_id st' =
                 (if idx = 0 then pid (query_pages st ! 1)
                  else pid (query_pages st ! (idx - 1))) \<and>
               active_page_id st' =
                 (if idx = 0 then pid (hd (query_pages st'))
                  else pid (query_pages st' ! (idx - 1)))))))"
proof (intro conjI impI allI)
  show "pages_inv (init_session first_id :: 'r session)"
    by (simp add: pages_inv_def init_session_def)
next
  assume "pages_inv st"
  then show "pages_inv (tab_step st opn)" by (rule pages_inv_step)
next
  assume "length (query_pages st) = 10"
  then show "add_new_page new_id st = st" by (simp add: add_new_page_def)
next
  assume "length (query_pages st) < 10"
  then show "length (query_pages (add_new_page new_id st)) = length (query_pages st) + 1"
    by (simp add: add_new_page_def)
next
  assume "length (query_pages st) = 1"
  then show "remove_page page_id st = Inr st" by (simp add: remove_page_def)
next
  show "remove_page page_id st \<noteq> Inl IndexError"
    using remove_page_error [of page_id st IndexError] by auto
next
  fix st'
  assume "remove_page page_id st = Inr st' \<and> 1 < length (query_pages st)"
  then show "length (query_pages st') = length (query_pages st) - 1"
    using remove_page_length [of page_id st st'] by simp
next
  fix st'
  assume "remove_page page_id st = Inr st' \<and> 1 < length (query_pages st)"
    and "active_page_id st = page_id"
  then show "\<exists>idx. find_page_index page_id (query_pages st) = Inr idx \<and>
               query_pages st' = pop_at idx (query_pages st) \<and>
               active_page_id st' =
                 (if idx = 0 then pid (query_pages st ! 1)
                  else pid (query_pages st ! (idx - 1))) \<and>
               active_page_id st' =
                 (if idx = 0 then pid (hd (query_pages st'))
                  else pid (query_pages st' ! (idx - 1)))"
    using remove_active_page [of page_id st st'] by simp
qed

theorem query_tabs_page_count_witness:
  "pages_inv (add_new_page ''b'' (init_session ''a'' :: unit session)) \<and>
   pages_inv (tab_step (add_new_page ''b'' (init_session ''a'' :: unit session)) (RemovePage ''b'')) \<and>
   active_page_id (tab_step (add_new_page ''b'' (init_session ''a'' :: unit session)) (RemovePage ''b'')) = ''a'' \<and>
   length (query_pages (add_new_page ''c'' (add_new_page ''b'' (init_session ''a'' :: unit session)))) = 3"
proof -
  let ?S = "add_new_page ''b'' (init_session ''a'' :: unit session)"
  have inv: "pages_inv ?S"
    by (simp add: pages_inv_def add_new_page_def init_session_def)
  have len: "length (query_pages ?S) = 2"
    by (simp add: add_new_page_def init_session_def)
  have act: "active_page_id ?S = ''b''"
    by (simp add: add_new_page_def init_session_def)
  have idx: "find_page_index ''b'' (query_pages ?S) = Inr 1"
    by (simp add: add_new_page_def init_session_def)
  obtain st' where r: "remove_page ''b'' ?S = Inr st'"
    using idx len act by (simp add: remove_page_def Let_def py_index_def pop_at_def add_new_page_def init_session_def)
  have p0: "pid (query_pages ?S ! 0) = ''a''"
    by (simp add: add_new_page_def init_session_def)
  from query_tabs_page_count [of "''a''" ?S "RemovePage ''b''" "''c''" "''b''"] inv len act idx r p0
  show ?thesis by auto
qed

section \<open>Reconciler: classification of the extracted files\<close>

lemma last_reference_Cons:
  "last_reference d (rf # rfs) =
     last_reference (if is_reference rf then Some (path_join (fst rf) (snd rf)) else d) rfs"
  by (cases "filter is_reference rfs") (auto simp: last_reference_def)

lemma last_reference_append:
  "last_reference d (xs @ ys) = last_reference (last_reference d xs) ys"
proof (induction xs arbitrary: d)
  case Nil
  show ?case by (simp add: last_reference_def)
next
  case (Cons x xs)
  show ?case by (simp only: append_Cons last_reference_Cons Cons.IH)
qed

lemma scan_files_spec:
  "scan_files root fs st =
     \<lparr> tlf_path = last_reference (tlf_path st)
                    (map (\<lambda>file. (root, file))
                       (filter (\<lambda>file. \<not> (prefix ''.'' file \<or> sublist ''__MACOSX'' root)) fs)),
       source_files = source_files st @
         map snd (filter (\<lambda>rf. \<not> is_reference rf)
           (map (\<lambda>file. (root, file))
              (filter (\<lambda>file. \<not> (prefix ''.'' file \<or> sublist ''__MACOSX'' root)) fs))) \<rparr>"
proof (induction fs arbitrary: st)
  case Nil
  show ?case by (simp add: last_reference_def)
next
  case (Cons f fs)
  show ?case
    by (simp add: Cons.IH last_reference_Cons py_in_sublist is_reference_def)
qed

lemma scan_walk_spec:
  "scan_walk walk st =
     \<lparr> tlf_path = last_reference (tlf_path st) (visible_files walk),
       source_files = source_files st @
         map snd (filter (\<lambda>rf. \<not> is_reference rf) (visible_files walk)) \<rparr>"
proof (induction walk arbitrary: st)
  case Nil
  show ?case by (simp add: visible_files_def last_reference_def)
next
  case (Cons e walk)
  obtain root dirs files where e: "e = (root, dirs, files)" by (cases e) auto
  have v: "visible_files (e # walk) =
      map (\<lambda>file. (root, file))
        (filter (\<lambda>file. \<not> (prefix ''.'' file \<or> sublist ''__MACOSX'' root)) files)
      @ visible_files walk"
    by (simp add: visible_files_def e)
  show ?case
    unfolding e scan_walk.simps Cons.IH v [unfolded e] scan_files_spec last_reference_append
    by simp
qed

text \<open>
  C7. Among the files of the walk that are neither hidden nor under a path containing
  \<open>__MACOSX\<close>, the source files are exactly those whose name does not contain \<open>TLF\<close>,
  in walk order, and the reference workbook is the last file of the walk whose name
  contains \<open>TLF\<close> (none when there is no such file).
\<close>

theorem identify_files_classification:
  "identify_files walk =
     \<lparr> tlf_path = last_reference None (visible_files walk),
       source_files = map snd (filter (\<lambda>rf. \<not> is_reference rf) (visible_files walk)) \<rparr>"
  by (simp add: identify_files_def scan_walk_spec)

theorem identify_files_classification_witness:
  "identify_files [(''/tmp/x'', [''sub'', ''__MACOSX''], [''.DS_Store'', ''TLF_A.xlsx'', ''GL_D250101.csv'']),
                   (''/tmp/x/sub'', [], [''TLF_B.xlsx'', ''tlf.csv'']),
                   (''/tmp/x/__MACOSX'', [], [''TLF_C.xlsx''])]
   = \<lparr> tlf_path = Some ''/tmp/x/sub/TLF_B.xlsx'', source_files = [''GL_D250101.csv'', ''tlf.csv''] \<rparr>"
  unfolding identify_files_classification
  by (simp add: visible_files_def is_reference_def last_reference_def path_join_def
        sublist_Cons_right suffix_to_prefix)

section \<open>Query runner: the text that a Run executes\<close>

lemma of_char_bound: "(of_char c :: nat) < 256"
  by (cases c) simp

lemma lower_char_ascii:
  assumes k: "(of_char x :: nat) = k" and r: "97 \<le> k" "k \<le> 122"
  shows "lower_char c = x \<longleftrightarrow> c = x \<or> (of_char c :: nat) + 32 = k"
proof -
  let ?n = "of_char c :: nat"
  have b: "?n < 256" by (rule of_char_bound)
  have cx: "c = x \<longleftrightarrow> ?n = k"
    using k of_char_eq_iff [of c x, where ?'a = nat] by auto
  consider (cap) "65 \<le> ?n \<and> ?n \<le> 90" | (lat) "192 \<le> ?n \<and> ?n \<le> 222 \<and> ?n \<noteq> 215"
    | (other) "\<not> (65 \<le> ?n \<and> ?n \<le> 90) \<and> \<not> (192 \<le> ?n \<and> ?n \<le> 222 \<and> ?n \<noteq> 215)"
    by blast
  then show ?thesis
  proof cases
    case cap
    then have l: "lower_char c = char_of (?n + 32)" by (simp add: lower_char_def Let_def)
    have "char_of (?n + 32) = x \<longleftrightarrow> (of_char (char_of (?n + 32) :: char) :: nat) = of_char x"
      by (simp only: of_char_eq_iff)
    also have "\<dots> \<longleftrightarrow> (?n + 32) mod 256 = k" by (simp only: of_char_of k)
    also have "\<dots> \<longleftrightarrow> ?n + 32 = k" using cap by simp
    finally show ?thesis using l cx cap r by auto
  next
    case lat
    then have l: "lower_char c = char_of (?n + 32)" by (simp add: lower_char_def Let_def)
    have "char_of (?n + 32) = x \<longleftrightarrow> (of_char (char_of (?n + 32) :: char) :: nat) = of_char x"
      by (simp only: of_char_eq_iff)
    also have "\<dots> \<longleftrightarrow> (?n + 32) mod 256 = k" by (simp only: of_char_of k)
    also have "\<dots> \<longleftrightarrow> ?n + 32 = k" using lat by simp
    finally show ?thesis using l cx lat r by auto
  next
    case other
    then have l: "lower_char c = c" by (auto simp: lower_char_def Let_def)
    from other r have "?n + 32 \<noteq> k \<or> ?n = k" by arith
    with l cx other r show ?thesis by auto
  qed
qed

lemma lower_char_letters:
  "lower_char c = CHR ''l'' \<longleftrightarrow> c = CHR ''l'' \<or> c = CHR ''L''"
  "lower_char c = CHR ''i'' \<longleftrightarrow> c = CHR ''i'' \<or> c = CHR ''I''"
  "lower_char c = CHR ''m'' \<longleftrightarrow> c = CHR ''m'' \<or> c = CHR ''M''"
  "lower_char c = CHR ''t'' \<longleftrightarrow> c = CHR ''t'' \<or> c = CHR ''T''"
proof -
  have L: "(of_char c :: nat) + 32 = 108 \<longleftrightarrow> c = CHR ''L''"
    using of_char_eq_iff [of c "CHR ''L''", where ?'a = nat] by auto
  have I: "(of_char c :: nat) + 32 = 105 \<longleftrightarrow> c = CHR ''I''"
    using of_char_eq_iff [of c "CHR ''I''", where ?'a = nat] by auto
  have M: "(of_char c :: nat) + 32 = 109 \<longleftrightarrow> c = CHR ''M''"
    using of_char_eq_iff [of c "CHR ''M''", where ?'a = nat] by auto
  have T: "(of_char c :: nat) + 32 = 116 \<longleftrightarrow> c = CHR ''T''"
    using of_char_eq_iff [of c "CHR ''T''", where ?'a = nat] by auto
  show "lower_char c = CHR ''l'' \<longleftrightarrow> c = CHR ''l'' \<or> c = CHR ''L''"
    using lower_char_ascii [of "CHR ''l''" 108 c] L by simp
  show "lower_char c = CHR ''i'' \<longleftrightarrow> c = CHR ''i'' \<or> c = CHR ''I''"
    using lower_char_ascii [of "CHR ''i''" 105 c] I by simp
  show "lower_char c = CHR ''m'' \<longleftrightarrow> c = CHR ''m'' \<or> c = CHR ''M''"
    using lower_char_ascii [of "CHR ''m''" 109 c] M by simp
  show "lower_char c = CHR ''t'' \<longleftrightarrow> c = CHR ''t'' \<or> c = CHR ''T''"
    using lower_char_ascii [of "CHR ''t''" 116 c] T by simp
qed

lemma five_elements: "length w = 5 \<Longrightarrow> \<exists>a b c d e. w = [a, b, c, d, e]"
  by (auto simp: length_Suc_conv eval_nat_numeral)

lemma limit_word_length: "limit_word w \<Longrightarrow> length w = 5"
  by (simp add: limit_word_def split: list.splits)

lemma map_lower_limit: "map lower_char w = ''limit'' \<longleftrightarrow> limit_word w"
proof -
  have five: "\<And>a b c d e. map lower_char [a, b, c, d, e] = ''limit'' \<longleftrightarrow> limit_word [a, b, c, d, e]"
    by (simp add: limit_word_def lower_char_letters)
  show ?thesis
  proof (cases "length w = 5")
    case True
    from five_elements [OF True] obtain a b c d e where "w = [a, b, c, d, e]" by blast
    with five show ?thesis by simp
  next
    case False
    then have "\<not> limit_word w" using limit_word_length by blast
    moreover from False have "map lower_char w \<noteq> ''limit''"
      using length_map [of lower_char w] by auto
    ultimately show ?thesis by simp
  qed
qed

lemma map_eq_append_split:
  "map f r = a @ b \<Longrightarrow> \<exists>w v. r = w @ v \<and> map f w = a \<and> map f v = b"
  by (auto simp: map_eq_append_conv)

lemma sublist_map_iff:
  "sublist x (map f q) \<longleftrightarrow> (\<exists>u w v. q = u @ w @ v \<and> map f w = x)"
proof
  assume "sublist x (map f q)"
  then obtain ps ss where "map f q = ps @ (x @ ss)"
    unfolding sublist_def by blast
  from map_eq_append_split [OF this]
  obtain u r where u: "q = u @ r" and r: "map f r = x @ ss"
    by blast
  from map_eq_append_split [OF r]
  obtain w v where "r = w @ v" and "map f w = x"
    by blast
  with u show "\<exists>u w v. q = u @ w @ v \<and> map f w = x" by blast
next
  assume "\<exists>u w v. q = u @ w @ v \<and> map f w = x"
  then obtain u w v where q: "q = u @ w @ v" and "map f w = x" by blast
  then have "map f q = map f u @ x @ map f v" by simp
  then show "sublist x (map f q)" unfolding sublist_def by blast
qed

lemma mentions_limit_lower: "sublist ''limit'' (py_lower q) \<longleftrightarrow> mentions_limit q"
  by (simp only: py_lower_def sublist_map_iff mentions_limit_def map_lower_limit)

lemma build_query_cases:
  "build_query s =
     (let q = py_rstrip_chars '';'' (py_strip s)
      in if q = [] then Inl ValueError
         else Inr (py_replace ''database'' ''df''
                    (q @ (if mentions_limit q then [] else '' LIMIT 300''))))"
  by (simp add: build_query_def Let_def py_in_sublist mentions_limit_lower)

text \<open>
  C9. For every Run, with \<open>q\<close> the page's query text after stripping the surrounding
  whitespace and then the trailing semicolons: the query text is \<open>q\<close> between leading
  whitespace and a run of semicolons followed by trailing whitespace; if \<open>q\<close> is empty
  nothing is handed to the engine, an error is shown and the last result of the page is
  \<open>None\<close>; otherwise exactly one text is handed to the engine, namely \<open>q\<close>, followed by
  \<open> LIMIT 300\<close> if and only if \<open>q\<close> nowhere contains the letters of \<open>limit\<close> in a row in
  any mixture of cases, with the occurrences of \<open>database\<close> replaced by \<open>df\<close>: a text
  without \<open>database\<close> is left as it is, the leftmost occurrence becomes \<open>df\<close> and the
  replacement goes on behind it, and no occurrence of \<open>database\<close> is left.
\<close>

theorem run_sql_executed_text:
  "(let q = py_rstrip_chars '';'' (py_strip (query page));
        r = run_sql engine page rid
    in (\<exists>l k t. query page = l @ q @ replicate k CHR '';'' @ t \<and>
                 list_all py_isspace l \<and> list_all py_isspace t) \<and>
       (py_strip (query page) \<noteq> [] \<longrightarrow>
          \<not> py_isspace (hd (py_strip (query page))) \<and>
          \<not> py_isspace (last (py_strip (query page)))) \<and>
       (q = [] \<longrightarrow> executed r = [] \<and> error_shown r \<and>
                  page_after r = page \<lparr> last_result := None \<rparr> \<and> run_id_after r = rid) \<and>
       (q \<noteq> [] \<longrightarrow>
          last q \<noteq> CHR '';'' \<and>
          executed r = [py_replace ''database'' ''df''
                          (q @ (if mentions_limit q then [] else '' LIMIT 300''))] \<and>
          \<not> sublist ''database'' (hd (executed r)) \<and>
          (case engine (hd (executed r)) of
             Inl e \<Rightarrow> error_shown r \<and> page_after r = page \<lparr> last_result := None \<rparr> \<and>
                      run_id_after r = rid
           | Inr res \<Rightarrow> \<not> error_shown r \<and> page_after r = page \<lparr> last_result := Some res \<rparr> \<and>
                        run_id_after r = rid + 1))) \<and>
   (\<forall>s. \<not> sublist ''database'' s \<longrightarrow> py_replace ''database'' ''df'' s = s) \<and>
   (\<forall>u v. \<not> sublist ''database'' (u @ ''databas'') \<longrightarrow>
      py_replace ''database'' ''df'' (u @ ''database'' @ v) =
        u @ ''df'' @ py_replace ''database'' ''df'' v)"
proof -
  let ?s = "py_strip (query page)"
  let ?q = "py_rstrip_chars '';'' ?s"
  let ?r = "run_sql engine page rid"
  let ?text = "py_replace ''database'' ''df''
                 (?q @ (if mentions_limit ?q then [] else '' LIMIT 300''))"
  from py_strip_decomp [of "query page"] obtain l t
    where lt: "query page = l @ ?s @ t" "list_all py_isspace l" "list_all py_isspace t"
    by blast
  from py_rstrip_decomp [of ?s "CHR '';''"] obtain k
    where k: "?s = ?q @ replicate k CHR '';''"
    by blast
  have "query page = l @ ?q @ replicate k CHR '';'' @ t"
    using lt(1) k by (metis append.assoc)
  with lt(2,3) have A: "\<exists>l k t. query page = l @ ?q @ replicate k CHR '';'' @ t \<and>
                 list_all py_isspace l \<and> list_all py_isspace t"
    by blast
  have B: "?s \<noteq> [] \<longrightarrow> \<not> py_isspace (hd ?s) \<and> \<not> py_isspace (last ?s)"
    using py_strip_ends [of "query page"] by blast
  have C: "?q = [] \<longrightarrow> executed ?r = [] \<and> error_shown ?r \<and>
                  page_after ?r = page \<lparr> last_result := None \<rparr> \<and> run_id_after ?r = rid"
    by (simp add: run_sql_def build_query_cases Let_def)
  have D1: "?q \<noteq> [] \<longrightarrow> last ?q \<noteq> CHR '';''"
    using py_rstrip_last [of "CHR '';''" ?s] by blast
  have bq: "?q \<noteq> [] \<Longrightarrow> build_query (query page) = Inr ?text"
    by (simp add: build_query_cases Let_def)
  have D2: "?q \<noteq> [] \<longrightarrow> executed ?r = [?text]"
    using bq by (auto simp: run_sql_def split: sum.splits)
  have D3: "?q \<noteq> [] \<longrightarrow> \<not> sublist ''database'' (hd (executed ?r))"
    using D2 database_gone by simp
  have D4: "?q \<noteq> [] \<longrightarrow> (case engine (hd (executed ?r)) of
             Inl e \<Rightarrow> error_shown ?r \<and> page_after ?r = page \<lparr> last_result := None \<rparr> \<and>
                      run_id_after ?r = rid
           | Inr res \<Rightarrow> \<not> error_shown ?r \<and> page_after ?r = page \<lparr> last_result := Some res \<rparr> \<and>
                        run_id_after ?r = rid + 1)"
    using bq by (auto simp: run_sql_def split: sum.splits)
  have E: "\<forall>s. \<not> sublist ''database'' s \<longrightarrow> py_replace ''database'' ''df'' s = s"
    using py_replace_absent [of "''database''" _ "''df''"] by blast
  have F: "\<forall>u v. \<not> sublist ''database'' (u @ ''databas'') \<longrightarrow>
      py_replace ''database'' ''df'' (u @ ''database'' @ v) =
        u @ ''df'' @ py_replace ''database'' ''df'' v"
  proof (intro allI impI)
    fix u v assume "\<not> sublist ''database'' (u @ ''databas'')"
    then have "\<not> sublist ''database'' (u @ butlast ''database'')" by simp
    then show "py_replace ''database'' ''df'' (u @ ''database'' @ v) =
        u @ ''df'' @ py_replace ''database'' ''df'' v"
      by (intro py_replace_first) simp_all
  qed
  from A B C D1 D2 D3 D4 have "let q = ?q; r = ?r in
       (\<exists>l k t. query page = l @ q @ replicate k CHR '';'' @ t \<and>
                 list_all py_isspace l \<and> list_all py_isspace t) \<and>
       (py_strip (query page) \<noteq> [] \<longrightarrow>
          \<not> py_isspace (hd (py_strip (query page))) \<and>
          \<not> py_isspace (last (py_strip (query page)))) \<and>
       (q = [] \<longrightarrow> executed r = [] \<and> error_shown r \<and>
                  page_after r = page \<lparr> last_result := None \<rparr> \<and> run_id_after r = rid) \<and>
       (q \<noteq> [] \<longrightarrow>
          last q \<noteq> CHR '';'' \<and>
          executed r = [py_replace ''database'' ''df''
                          (q @ (if mentions_limit q then [] else '' LIMIT 300''))] \<and>
          \<not> sublist ''database'' (hd (executed r)) \<and>
          (case engine (hd (executed r)) of
             Inl e \<Rightarrow> error_shown r \<and> page_after r = page \<lparr> last_result := None \<rparr> \<and>
                      run_id_after r = rid
           | Inr res \<Rightarrow> \<not> error_shown r \<and> page_after r = page \<lparr> last_result := Some res \<rparr> \<and>
                        run_id_after r = rid + 1))"
    unfolding Let_def by blast
  with E F show ?thesis by blast
qed

theorem run_sql_executed_text_witness:
  "executed (run_sql (\<lambda>t. Inr (length t))
      \<lparr> pid = ''p'', title = ''Query 1'', query = ''  SELECT * FROM database;; '', last_result = None \<rparr> 0)
     = [''SELECT * FROM df LIMIT 300''] \<and>
   last_result (page_after (run_sql (\<lambda>t. Inr (length t))
      \<lparr> pid = ''p'', title = ''Query 1'', query = ''  SELECT * FROM database;; '', last_result = None \<rparr> 0))
     = Some 26 \<and>
   executed (run_sql (\<lambda>t. Inr (length t))
      \<lparr> pid = ''p'', title = ''Query 1'', query = '' ;; '', last_result = Some 3 \<rparr> 0) = [] \<and>
   last_result (page_after (run_sql (\<lambda>t. Inr (length t))
      \<lparr> pid = ''p'', title = ''Query 1'', query = '' ;; '', last_result = Some 3 \<rparr> 0)) = None \<and>
   executed (run_sql (\<lambda>t. Inr (length t))
      \<lparr> pid = ''p'', title = ''Query 1'', query = ''select a from database LiMiT 5;'',
        last_result = None \<rparr> 0)
     = [''select a from df LiMiT 5''] \<and>
   executed (run_sql (\<lambda>t. Inl (OtherError ''no table''))
      \<lparr> pid = ''p'', title = ''Query 1'', query = ''select limits from t'',
        last_result = Some (1::nat) \<rparr> 7)
     = [''select limits from t''] \<and>
   error_shown (run_sql (\<lambda>t. Inl (OtherError ''no table''))
      \<lparr> pid = ''p'', title = ''Query 1'', query = ''select limits from t'',
        last_result = Some (1::nat) \<rparr> 7)"
proof -
  let ?p1 = "\<lparr> pid = ''p'', title = ''Query 1'', query = ''  SELECT * FROM database;; '',
               last_result = None :: nat option \<rparr>"
  let ?p2 = "\<lparr> pid = ''p'', title = ''Query 1'', query = '' ;; '', last_result = Some (3::nat) \<rparr>"
  let ?p3 = "\<lparr> pid = ''p'', title = ''Query 1'', query = ''select a from database LiMiT 5;'',
               last_result = None :: nat option \<rparr>"
  let ?p4 = "\<lparr> pid = ''p'', title = ''Query 1'', query = ''select limits from t'',
               last_result = Some (1::nat) \<rparr>"
  have q1: "py_rstrip_chars '';'' (py_strip (query ?p1)) = ''SELECT * FROM database''"
    by code_simp
  have l1: "\<not> mentions_limit ''SELECT * FROM database''"
    unfolding mentions_limit_lower [symmetric] py_in_sublist [symmetric] by code_simp
  have r1: "py_replace ''database'' ''df'' ''SELECT * FROM database LIMIT 300'' = ''SELECT * FROM df LIMIT 300''"
    by code_simp
  have q2: "py_rstrip_chars '';'' (py_strip (query ?p2)) = []"
    by code_simp
  have q3: "py_rstrip_chars '';'' (py_strip (query ?p3)) = ''select a from database LiMiT 5''"
    by code_simp
  have l3: "mentions_limit ''select a from database LiMiT 5''"
    unfolding mentions_limit_lower [symmetric] py_in_sublist [symmetric] by code_simp
  have r3: "py_replace ''database'' ''df'' ''select a from database LiMiT 5'' = ''select a from df LiMiT 5''"
    by code_simp
  have q4: "py_rstrip_chars '';'' (py_strip (query ?p4)) = ''select limits from t''"
    by code_simp
  have l4: "mentions_limit ''select limits from t''"
    unfolding mentions_limit_lower [symmetric] py_in_sublist [symmetric] by code_simp
  have r4: "py_replace ''database'' ''df'' ''select limits from t'' = ''select limits from t''"
    by code_simp
  from run_sql_executed_text [of ?p1 "\<lambda>t. Inr (length t)" 0] q1 l1 r1
  have a: "executed (run_sql (\<lambda>t. Inr (length t)) ?p1 0) = [''SELECT * FROM df LIMIT 300''] \<and>
           last_result (page_after (run_sql (\<lambda>t. Inr (length t)) ?p1 0)) = Some 26"
    by (simp add: Let_def)
  from run_sql_executed_text [of ?p2 "\<lambda>t. Inr (length t)" 0] q2
  have b: "executed (run_sql (\<lambda>t. Inr (length t)) ?p2 0) = [] \<and>
           last_result (page_after (run_sql (\<lambda>t. Inr (length t)) ?p2 0)) = None"
    by (simp add: Let_def)
  from run_sql_executed_text [of ?p3 "\<lambda>t. Inr (length t)" 0] q3 l3 r3
  have c: "executed (run_sql (\<lambda>t. Inr (length t)) ?p3 0) = [''select a from df LiMiT 5'']"
    by (simp add: Let_def)
  from run_sql_executed_text [of ?p4 "\<lambda>t. Inl (OtherError ''no table'')" 7] q4 l4 r4
  have d: "executed (run_sql (\<lambda>t. Inl (OtherError ''no table'')) ?p4 7) = [''select limits from t''] \<and>
           error_shown (run_sql (\<lambda>t. Inl (OtherError ''no table'')) ?p4 7)"
    by (simp add: Let_def)
  from a b c d show ?thesis by simp
qed

section \<open>Reconciler: date tokens of a file name\<close>

lemma re_search_None_iff:
  "re_search m s = None \<longleftrightarrow> (\<forall>i\<le>length s. m (drop i s) = None)"
proof (induction s)
  case Nil
  show ?case by simp
next
  case (Cons c cs)
  have "(\<forall>i\<le>length (c # cs). m (drop i (c # cs)) = None) \<longleftrightarrow>
        m (c # cs) = None \<and> (\<forall>i\<le>length cs. m (drop i cs) = None)"
  proof
    assume a: "\<forall>i\<le>length (c # cs). m (drop i (c # cs)) = None"
    from a have "m (drop 0 (c # cs)) = None" by blast
    moreover have "\<forall>i\<le>length cs. m (drop i cs) = None"
    proof (intro allI impI)
      fix i assume "i \<le> length cs"
      then have "Suc i \<le> length (c # cs)" by simp
      with a have "m (drop (Suc i) (c # cs)) = None" by blast
      then show "m (drop i cs) = None" by simp
    qed
    ultimately show "m (c # cs) = None \<and> (\<forall>i\<le>length cs. m (drop i cs) = None)" by simp
  next
    assume b: "m (c # cs) = None \<and> (\<forall>i\<le>length cs. m (drop i cs) = None)"
    show "\<forall>i\<le>length (c # cs). m (drop i (c # cs)) = None"
    proof (intro allI impI)
      fix i assume "i \<le> length (c # cs)"
      then show "m (drop i (c # cs)) = None"
        using b by (cases i) auto
    qed
  qed
  with Cons.IH show ?case by (auto split: option.splits)
qed

lemma re_search_first:
  "i \<le> length s \<Longrightarrow> m (drop i s) = Some g \<Longrightarrow> (\<forall>j<i. m (drop j s) = None) \<Longrightarrow>
   re_search m s = Some g"
proof (induction s arbitrary: i)
  case Nil
  then show ?case by simp
next
  case (Cons c cs)
  show ?case
  proof (cases i)
    case 0
    with Cons.prems(2) show ?thesis by simp
  next
    case (Suc i')
    with Cons.prems(3) have "m (drop 0 (c # cs)) = None" by blast
    then have n: "m (c # cs) = None" by simp
    from Suc Cons.prems(1) have 1: "i' \<le> length cs" by simp
    from Suc Cons.prems(2) have 2: "m (drop i' cs) = Some g" by simp
    have 3: "\<forall>j<i'. m (drop j cs) = None"
    proof (intro allI impI)
      fix j assume "j < i'"
      with Suc have "Suc j < i" by simp
      with Cons.prems(3) have "m (drop (Suc j) (c # cs)) = None" by blast
      then show "m (drop j cs) = None" by simp
    qed
    from Cons.IH [OF 1 2 3] n show ?thesis by simp
  qed
qed

lemma match_D6_drop:
  "match_D6 (drop p base) =
     (if d_token_at base p then Some (take 6 (drop (p + 1) base)) else None)"
proof (cases "p < length base")
  case True
  then have "drop p base = base ! p # drop (Suc p) base"
    by (simp add: Cons_nth_drop_Suc)
  moreover have "6 \<le> length (drop (Suc p) base) \<longleftrightarrow> p + 7 \<le> length base"
    by auto
  ultimately show ?thesis
    by (simp add: match_D6_def d_token_at_def)
next
  case False
  then show ?thesis by (simp add: match_D6_def d_token_at_def)
qed

lemma match_jv_drop:
  "match_jv (drop p base) =
     (if jv_token_at base p then Some (take 8 (drop (p + 2) base)) else None)"
proof (cases "p + 1 < length base")
  case True
  then have "drop p base = base ! p # drop (Suc p) base"
    and "drop (Suc p) base = base ! (p + 1) # drop (p + 2) base"
    by (simp_all add: Cons_nth_drop_Suc)
  then have "drop p base = base ! p # base ! (p + 1) # drop (p + 2) base"
    by simp
  moreover have "8 \<le> length (drop (p + 2) base) \<longleftrightarrow> p + 10 \<le> length base"
    by auto
  ultimately show ?thesis
    by (simp add: match_jv_def jv_token_at_def)
next
  case False
  then have nt: "\<not> jv_token_at base p" by (simp add: jv_token_at_def)
  have "match_jv (drop p base) = None"
  proof (cases "p < length base")
    case True
    then have "drop p base = base ! p # drop (Suc p) base"
      by (simp add: Cons_nth_drop_Suc)
    moreover from False have "drop (Suc p) base = []" by simp
    ultimately show ?thesis by (simp add: match_jv_def)
  next
    case False
    then show ?thesis by (simp add: match_jv_def)
  qed
  with nt show ?thesis by simp
qed

lemma slice_2_8:
  "take 2 (drop 2 f) @ take 2 (drop 4 f) @ take 2 (drop 6 f) = take 6 (drop 2 f)"
proof -
  have a: "take 6 (drop 2 f) = take 2 (drop 2 f) @ take 4 (drop 4 f)"
    using take_add [of 2 4 "drop 2 f"] by simp
  have b: "take 4 (drop 4 f) = take 2 (drop 4 f) @ take 2 (drop 6 f)"
    using take_add [of 2 2 "drop 4 f"] by simp
  show ?thesis by (simp only: a b)
qed

lemma match_D6_not_sep:
  "c = CHR ''-'' \<or> c = CHR ''_'' \<Longrightarrow> match_D6 (c # cs) = None"
  by (auto simp: match_D6_def)

lemma re_search_match_D6_hd:
  "match_D6 cs = Some d \<Longrightarrow> re_search match_D6 cs = Some d"
  by (cases cs) (auto simp: match_D6_def)

lemma re_search_d_date_eq: "re_search match_d_date s = re_search match_D6 s"
proof (induction s)
  case Nil
  show ?case by (simp add: match_d_date_def match_D6_def)
next
  case (Cons c cs)
  show ?case
  proof (cases "c = CHR ''-'' \<or> c = CHR ''_''")
    case True
    then have n: "match_D6 (c # cs) = None" by (rule match_D6_not_sep)
    show ?thesis
    proof (cases "match_D6 cs")
      case None
      with True n Cons.IH show ?thesis by (simp add: match_d_date_def)
    next
      case (Some d)
      from re_search_match_D6_hd [OF Some] Some True n show ?thesis
        by (simp add: match_d_date_def)
    qed
  next
    case False
    then have "match_d_date (c # cs) = match_D6 (c # cs)" by (simp add: match_d_date_def)
    with Cons.IH show ?thesis by (simp split: option.splits)
  qed
qed

lemma find_upt_None: "find P [0..<n] = None \<longleftrightarrow> (\<forall>i<n. \<not> P i)"
  by (auto simp: find_None_iff)

lemma find_upt_Some:
  "find P [0..<n] = Some p \<longleftrightarrow> p < n \<and> P p \<and> (\<forall>j<p. \<not> P j)"
proof
  assume "find P [0..<n] = Some p"
  then obtain i where "i < length [0..<n]" "P ([0..<n] ! i)" "p = [0..<n] ! i"
    "\<forall>j<i. \<not> P ([0..<n] ! j)"
    unfolding find_Some_iff by blast
  then show "p < n \<and> P p \<and> (\<forall>j<p. \<not> P j)" by auto
next
  assume h: "p < n \<and> P p \<and> (\<forall>j<p. \<not> P j)"
  then have "p < length [0..<n] \<and> P ([0..<n] ! p) \<and> p = [0..<n] ! p \<and>
             (\<forall>j<p. \<not> P ([0..<n] ! j))"
    by auto
  then show "find P [0..<n] = Some p" unfolding find_Some_iff by blast
qed

lemma re_search_find:
  assumes tok: "\<And>i. m (drop i s) = (if P i then Some (g i) else None)"
    and inside: "\<And>i. P i \<Longrightarrow> i < length s"
  shows "re_search m s = map_option g (find P [0..<length s])"
proof (cases "find P [0..<length s]")
  case None
  then have "\<forall>i<length s. \<not> P i" by (simp add: find_upt_None)
  with inside have "\<forall>i. \<not> P i" by blast
  then have "re_search m s = None"
    unfolding re_search_None_iff by (simp add: tok)
  with None show ?thesis by simp
next
  case (Some p)
  then have p: "p < length s" "P p" "\<forall>j<p. \<not> P j" by (simp_all add: find_upt_Some)
  from p(1) have 1: "p \<le> length s" by simp
  from p(2) have 2: "m (drop p s) = Some (g p)" by (simp add: tok)
  from p(3) have 3: "\<forall>j<p. m (drop j s) = None" by (simp add: tok)
  from re_search_first [OF 1 2 3] Some show ?thesis by simp
qed

lemma basename_split:
  "\<exists>dir. p = dir @ basename p \<and> (dir = [] \<or> last dir = CHR ''/'')"
proof -
  let ?P = "\<lambda>c. c \<noteq> CHR ''/''"
  have e: "p = rev (dropWhile ?P (rev p)) @ basename p"
  proof -
    have "rev (dropWhile ?P (rev p)) @ rev (takeWhile ?P (rev p)) =
          rev (takeWhile ?P (rev p) @ dropWhile ?P (rev p))"
      by (simp only: rev_append)
    also have "\<dots> = p" by (simp only: takeWhile_dropWhile_id rev_rev_ident)
    finally show ?thesis unfolding basename_def by (rule sym)
  qed
  have "dropWhile ?P (rev p) = [] \<or> last (rev (dropWhile ?P (rev p))) = CHR ''/''"
  proof (cases "dropWhile ?P (rev p) = []")
    case True
    then show ?thesis by (rule disjI1)
  next
    case False
    from hd_dropWhile [OF False] have "hd (dropWhile ?P (rev p)) = CHR ''/''" by simp
    with False show ?thesis by (simp add: last_rev)
  qed
  then have "rev (dropWhile ?P (rev p)) = [] \<or> last (rev (dropWhile ?P (rev p))) = CHR ''/''"
    by simp
  with e show ?thesis by blast
qed

lemma basename_no_slash: "CHR ''/'' \<notin> set (basename p)"
proof
  assume "CHR ''/'' \<in> set (basename p)"
  then have "CHR ''/'' \<in> set (takeWhile (\<lambda>c. c \<noteq> CHR ''/'') (rev p))"
    by (simp add: basename_def)
  then show False by (auto dest: set_takeWhileD)
qed

text \<open>
  C4. For every file name, with \<open>base\<close> its base name (what follows the last slash): the
  D-date is the six digits after the first position of \<open>base\<close> at which a \<open>D\<close> or \<open>d\<close>
  is followed by six digits, and none when there is no such position; the JV token is the
  last six of the eight digits after the first position at which \<open>JV\<close>, in either case, is
  followed by eight digits, and none when there is no such position. A separator before
  the \<open>D\<close> changes nothing.
\<close>

theorem parse_dates_tokens:
  "(let base = basename filename in
      parse_dates_from_filename filename =
        (map_option (\<lambda>p. take 6 (drop (p + 1) base)) (find (d_token_at base) [0..<length base]),
         map_option (\<lambda>p. take 6 (drop (p + 4) base)) (find (jv_token_at base) [0..<length base]))
      \<and> CHR ''/'' \<notin> set base
      \<and> (\<exists>dir. filename = dir @ base \<and> (dir = [] \<or> last dir = CHR ''/'')))"
proof -
  let ?base = "basename filename"
  have d: "re_search match_d_date ?base =
      map_option (\<lambda>p. take 6 (drop (p + 1) ?base)) (find (d_token_at ?base) [0..<length ?base])"
    unfolding re_search_d_date_eq
    by (rule re_search_find) (simp_all add: match_D6_drop d_token_at_def)
  have j: "re_search match_jv ?base =
      map_option (\<lambda>p. take 8 (drop (p + 2) ?base)) (find (jv_token_at ?base) [0..<length ?base])"
    by (rule re_search_find) (simp_all add: match_jv_drop jv_token_at_def)
  have sl: "\<And>p. take 2 (drop 2 (take 8 (drop (p + 2) ?base))) @
                 take 2 (drop 4 (take 8 (drop (p + 2) ?base))) @
                 take 2 (drop 6 (take 8 (drop (p + 2) ?base))) = take 6 (drop (p + 4) ?base)"
  proof -
    fix p
    have ar: "(2::nat) + (p + 2) = p + 4" by simp
    have "drop 2 (drop (p + 2) ?base) = drop (p + 4) ?base"
      by (simp only: drop_drop ar)
    then have "take 6 (drop 2 (take 8 (drop (p + 2) ?base))) = take 6 (drop (p + 4) ?base)"
      by (simp only: drop_take) simp
    then show "take 2 (drop 2 (take 8 (drop (p + 2) ?base))) @
                 take 2 (drop 4 (take 8 (drop (p + 2) ?base))) @
                 take 2 (drop 6 (take 8 (drop (p + 2) ?base))) = take 6 (drop (p + 4) ?base)"
      by (simp only: slice_2_8)
  qed
  have "parse_dates_from_filename filename =
        (map_option (\<lambda>p. take 6 (drop (p + 1) ?base)) (find (d_token_at ?base) [0..<length ?base]),
         map_option (\<lambda>p. take 6 (drop (p + 4) ?base)) (find (jv_token_at ?base) [0..<length ?base]))"
  proof (cases "find (jv_token_at ?base) [0..<length ?base]")
    case None
    then show ?thesis
      unfolding parse_dates_from_filename_def Let_def d j by simp
  next
    case (Some p)
    then show ?thesis
      unfolding parse_dates_from_filename_def Let_def d j
      by (simp only: option.map option.case sl)
  qed
  with basename_no_slash [of filename] basename_split [of filename]
  show ?thesis unfolding Let_def by blast
qed

theorem parse_dates_tokens_witness:
  "parse_dates_from_filename ''D111111_JV20200101/Dx_GLd12345_-D250315_jv123_JV20250316_D999999.csv''
     = (Some ''250315'', Some ''250316'') \<and>
   parse_dates_from_filename ''out/d12345x_JV2025031.txt'' = (None, None) \<and>
   parse_dates_from_filename ''ATMd000001jv00991231.TRF'' = (Some ''000001'', Some ''991231'')"
proof -
  have b1: "basename ''D111111_JV20200101/Dx_GLd12345_-D250315_jv123_JV20250316_D999999.csv''
      = ''Dx_GLd12345_-D250315_jv123_JV20250316_D999999.csv''"
    by code_simp
  have b2: "basename ''out/d12345x_JV2025031.txt'' = ''d12345x_JV2025031.txt''"
    by code_simp
  have b3: "basename ''ATMd000001jv00991231.TRF'' = ''ATMd000001jv00991231.TRF''"
    by code_simp
  have e1: "(map_option (\<lambda>p. take 6 (drop (p + 1) ''Dx_GLd12345_-D250315_jv123_JV20250316_D999999.csv''))
        (find (d_token_at ''Dx_GLd12345_-D250315_jv123_JV20250316_D999999.csv'')
           [0..<length ''Dx_GLd12345_-D250315_jv123_JV20250316_D999999.csv'']),
      map_option (\<lambda>p. take 6 (drop (p + 4) ''Dx_GLd12345_-D250315_jv123_JV20250316_D999999.csv''))
        (find (jv_token_at ''Dx_GLd12345_-D250315_jv123_JV20250316_D999999.csv'')
           [0..<length ''Dx_GLd12345_-D250315_jv123_JV20250316_D999999.csv'']))
      = (Some ''250315'', Some ''250316'')"
    by code_simp
  have e2: "(map_option (\<lambda>p. take 6 (drop (p + 1) ''d12345x_JV2025031.txt''))
        (find (d_token_at ''d12345x_JV2025031.txt'') [0..<length ''d12345x_JV2025031.txt'']),
      map_option (\<lambda>p. take 6 (drop (p + 4) ''d12345x_JV2025031.txt''))
        (find (jv_token_at ''d12345x_JV2025031.txt'') [0..<length ''d12345x_JV2025031.txt'']))
      = (None, None)"
    by code_simp
  have e3: "(map_option (\<lambda>p. take 6 (drop (p + 1) ''ATMd000001jv00991231.TRF''))
        (find (d_token_at ''ATMd000001jv00991231.TRF'') [0..<length ''ATMd000001jv00991231.TRF'']),
      map_option (\<lambda>p. take 6 (drop (p + 4) ''ATMd000001jv00991231.TRF''))
        (find (jv_token_at ''ATMd000001jv00991231.TRF'') [0..<length ''ATMd000001jv00991231.TRF'']))
      = (Some ''000001'', Some ''991231'')"
    by code_simp
  from parse_dates_tokens [of "''D111111_JV20200101/Dx_GLd12345_-D250315_jv123_JV20250316_D999999.csv''"]
    b1 e1
  have 1: "parse_dates_from_filename ''D111111_JV20200101/Dx_GLd12345_-D250315_jv123_JV20250316_D999999.csv''
     = (Some ''250315'', Some ''250316'')"
    by (simp only: Let_def)
  from parse_dates_tokens [of "''out/d12345x_JV2025031.txt''"] b2 e2
  have 2: "parse_dates_from_filename ''out/d12345x_JV2025031.txt'' = (None, None)"
    by (simp only: Let_def)
  from parse_dates_tokens [of "''ATMd000001jv00991231.TRF''"] b3 e3
  have 3: "parse_dates_from_filename ''ATMd000001jv00991231.TRF'' = (Some ''000001'', Some ''991231'')"
    by (simp only: Let_def)
  from 1 2 3 show ?thesis by blast
qed

section \<open>Merger: the merged table and the error\<close>

lemma prefix_take_eq: "prefix p s \<longleftrightarrow> take (length p) s = p"
proof
  assume "prefix p s"
  then obtain t where "s = p @ t" by (auto simp: prefix_def)
  then show "take (length p) s = p" by simp
next
  assume "take (length p) s = p"
  then have "prefix p s" using take_is_prefix [of "length p" s] by simp
  then show "prefix p s" .
qed

lemma named_column_prefix: "named_column c \<longleftrightarrow> \<not> prefix ''Unnamed'' (label_str c)"
proof -
  have l: "length ''Unnamed'' = 7" by simp
  show ?thesis
    unfolding named_column_def prefix_take_eq l by (rule refl)
qed

lemma select_mask_self: "select_mask (map P xs) xs = filter P xs"
  by (induction xs) (auto simp: select_mask_def)

lemma select_mask_zip:
  "select_mask (map P cs) r = map snd (filter (\<lambda>(c, v). P c) (zip cs r))"
proof (induction cs arbitrary: r)
  case Nil
  show ?case by (simp add: select_mask_def)
next
  case (Cons c cs)
  show ?case
  proof (cases r)
    case Nil
    then show ?thesis by (simp add: select_mask_def)
  next
    case (Cons v vs)
    with Cons.IH [of vs] show ?thesis by (simp add: select_mask_def)
  qed
qed

lemma select_mask_index:
  "select_mask (map Q (map f rs)) ix = map fst (filter (\<lambda>(i, r). Q (f r)) (zip ix rs))"
proof (induction rs arbitrary: ix)
  case Nil
  show ?case by (simp add: select_mask_def)
next
  case (Cons r rs)
  show ?case
  proof (cases ix)
    case Nil
    then show ?thesis by (simp add: select_mask_def)
  next
    case (Cons i ix')
    with Cons.IH [of ix'] show ?thesis by (simp add: select_mask_def)
  qed
qed

lemma list_ex_present: "list_ex (\<lambda>c. c \<noteq> None) r \<longleftrightarrow> (\<exists>v \<in> set r. v \<noteq> None)"
  by (simp add: list_ex_iff)

lemma clean_is_cleaned_sheet: "dropna_all (drop_unnamed df) = cleaned_sheet df"
proof (rule frame.equality)
  let ?cut = "\<lambda>r. map snd (filter (\<lambda>(c, v). named_column c) (zip (columns df) r))"
  let ?present = "\<lambda>r :: string option list. \<exists>v \<in> set r. v \<noteq> None"
  have m: "map (\<lambda>c. \<not> prefix ''Unnamed'' (label_str c)) (columns df) = map named_column (columns df)"
    by (simp add: named_column_prefix)
  have c: "columns (drop_unnamed df) = filter named_column (columns df)"
    by (simp add: drop_unnamed_def Let_def m select_mask_self)
  have r: "rows (drop_unnamed df) = map ?cut (rows df)"
    by (simp add: drop_unnamed_def Let_def m select_mask_zip)
  have i: "row_index (drop_unnamed df) = row_index df"
    by (simp add: drop_unnamed_def Let_def)
  have k: "map (\<lambda>r. list_ex (\<lambda>c. c \<noteq> None) r) (map ?cut (rows df)) = map ?present (map ?cut (rows df))"
    by (simp only: list_ex_present)
  show "columns (dropna_all (drop_unnamed df)) = columns (cleaned_sheet df)"
    by (simp add: dropna_all_def Let_def c cleaned_sheet_def)
  have "row_index (dropna_all (drop_unnamed df)) =
        select_mask (map ?present (map ?cut (rows df))) (row_index df)"
    unfolding dropna_all_def Let_def r i k by simp
  also have "\<dots> = row_index (cleaned_sheet df)"
    unfolding select_mask_index cleaned_sheet_def Let_def by simp
  finally show "row_index (dropna_all (drop_unnamed df)) = row_index (cleaned_sheet df)" .
  have "rows (dropna_all (drop_unnamed df)) =
        select_mask (map ?present (map ?cut (rows df))) (map ?cut (rows df))"
    unfolding dropna_all_def Let_def r i k by simp
  also have "\<dots> = rows (cleaned_sheet df)"
    unfolding select_mask_self cleaned_sheet_def Let_def by simp
  finally show "rows (dropna_all (drop_unnamed df)) = rows (cleaned_sheet df)" .
  show "frame.more (dropna_all (drop_unnamed df)) = frame.more (cleaned_sheet df)"
    by simp
qed

lemma clean_sheets_spec:
  "clean_sheets wb (fs, psr) =
     (fs @ contributing wb,
      foldl (\<lambda>d (n, f). dict_set n (length (rows (cleaned_sheet f))) d) psr wb)"
proof (induction wb arbitrary: fs psr)
  case Nil
  show ?case by (simp add: contributing_def)
next
  case (Cons s wb)
  obtain n f where s: "s = (n, f)" by (cases s) auto
  show ?case
    unfolding s
    by (simp add: Cons.IH Let_def clean_is_cleaned_sheet contributing_def)
qed

lemma foldl_dict_set_keys:
  "fst ` set (foldl (\<lambda>d (n, f). dict_set n (g f) d) psr wb) = fst ` set psr \<union> fst ` set wb"
proof (induction wb arbitrary: psr)
  case Nil
  show ?case by simp
next
  case (Cons s wb)
  obtain n f where s: "s = (n, f)" by (cases s) auto
  show ?case unfolding s by (auto simp: Cons.IH dict_set_keys)
qed

lemma foldl_dict_set_distinct:
  "distinct (map fst wb) \<Longrightarrow> fst ` set psr \<inter> fst ` set wb = {} \<Longrightarrow>
   foldl (\<lambda>d (n, f). dict_set n (g f) d) psr wb = psr @ map (\<lambda>(n, f). (n, g f)) wb"
proof (induction wb arbitrary: psr)
  case Nil
  show ?case by simp
next
  case (Cons s wb)
  obtain n f where s: "s = (n, f)" by (cases s) auto
  from Cons.prems s have fresh: "n \<notin> fst ` set psr" by auto
  from Cons.prems s have d: "distinct (map fst wb)" by simp
  from Cons.prems(1) s have nw: "n \<notin> fst ` set wb" by simp
  from Cons.prems(2) s have "fst ` set psr \<inter> fst ` set wb = {}" by auto
  with nw have "fst ` set (psr @ [(n, g f)]) \<inter> fst ` set wb = {}"
    by auto
  from Cons.IH [OF d this] fresh show ?case
    unfolding s by (simp add: dict_set_fresh)
qed

lemma first_seen_set: "set (first_seen seen xs) = set xs - set seen"
  by (induction xs arbitrary: seen) auto

lemma first_seen_distinct: "distinct (first_seen seen xs)"
  by (induction xs arbitrary: seen) (auto simp: first_seen_set)

lemma concat_frames_rows:
  "rows (concat_frames fs) =
     concat (map (\<lambda>f. map (reindex_row (columns f) (columns (concat_frames fs))) (rows f)) fs)"
  by (simp add: concat_frames_def Let_def)

lemma concat_frames_index:
  "row_index (concat_frames fs) = [0..<length (rows (concat_frames fs))]"
  by (simp add: concat_frames_def Let_def)

lemma concat_frames_length:
  "length (rows (concat_frames fs)) = sum_list (map (\<lambda>f. length (rows f)) fs)"
  by (simp add: concat_frames_def Let_def length_concat comp_def)

lemma concat_frames_columns:
  "distinct (columns (concat_frames fs)) \<and>
   set (columns (concat_frames fs)) = (\<Union>f\<in>set fs. set (columns f))"
  by (simp add: concat_frames_def Let_def first_seen_distinct first_seen_set)

lemma contributing_rows_sum:
  "sum_list (map (\<lambda>f. length (rows f)) (contributing wb)) =
   sum_list (map (\<lambda>(n, f). length (rows (cleaned_sheet f))) wb)"
  unfolding contributing_def
  by (induction wb) (auto simp: case_prod_beta)

lemma contributing_Nil:
  "contributing wb = [] \<longleftrightarrow> list_all (\<lambda>(n, f). rows (cleaned_sheet f) = []) wb"
  unfolding contributing_def
  by (induction wb) (auto simp: case_prod_beta)

lemma merge_unfold:
  "merge_excel_to_parquet_bytes to_parquet wb =
     (if contributing wb = [] then Inl ValueError
      else Inr (to_parquet (concat_frames (contributing wb)),
                \<lparr> sheet_count = length wb,
                  merged_rows = length (rows (concat_frames (contributing wb))),
                  per_sheet_rows =
                    foldl (\<lambda>d (n, f). dict_set n (length (rows (cleaned_sheet f))) d) [] wb,
                  parquet_size = length (to_parquet (concat_frames (contributing wb))) \<rparr>))"
  by (simp add: merge_excel_to_parquet_bytes_def clean_sheets_spec Let_def)

text \<open>
  C3. For every workbook, with the contributing sheets being the cleaned sheets that still
  have a row, in workbook order: the merger fails exactly when there is no contributing
  sheet, and otherwise the bytes it returns are the parquet rendering of the concatenation
  of the contributing sheets. A cleaned sheet has the columns whose label text does not
  begin with \<open>Unnamed\<close> and, of the rows cut down to those columns, the ones in which
  some cell is present. The concatenation numbers its rows from zero, has as many rows as
  the contributing sheets together, holds their rows in order, each aligned to the
  concatenation's columns, and its columns are those of the contributing sheets, each once.
  A sheet without rows after cleaning adds neither rows nor columns.
\<close>

theorem merged_table_is_concatenation:
  "(let parts = contributing wb; out = concat_frames parts
    in (case merge_excel_to_parquet_bytes to_parquet wb of
          Inl e \<Rightarrow> parts = []
        | Inr (bytes, st) \<Rightarrow> parts \<noteq> [] \<and> bytes = to_parquet out \<and>
                              merged_rows st = length (rows out)) \<and>
       row_index out = [0..<length (rows out)] \<and>
       length (rows out) = sum_list (map (\<lambda>f. length (rows f)) parts) \<and>
       rows out = concat (map (\<lambda>f. map (reindex_row (columns f) (columns out)) (rows f)) parts) \<and>
       distinct (columns out) \<and>
       set (columns out) = (\<Union>f\<in>set parts. set (columns f)))"
proof -
  let ?parts = "contributing wb"
  let ?out = "concat_frames ?parts"
  have A: "(case merge_excel_to_parquet_bytes to_parquet wb of
          Inl e \<Rightarrow> ?parts = []
        | Inr (bytes, st) \<Rightarrow> ?parts \<noteq> [] \<and> bytes = to_parquet ?out \<and>
                              merged_rows st = length (rows ?out))"
    by (simp add: merge_unfold)
  have B: "row_index ?out = [0..<length (rows ?out)]" by (rule concat_frames_index)
  have C: "length (rows ?out) = sum_list (map (\<lambda>f. length (rows f)) ?parts)"
    by (rule concat_frames_length)
  have D: "rows ?out = concat (map (\<lambda>f. map (reindex_row (columns f) (columns ?out)) (rows f)) ?parts)"
    by (rule concat_frames_rows)
  from concat_frames_columns [of ?parts]
  have E: "distinct (columns ?out)" and F: "set (columns ?out) = (\<Union>f\<in>set ?parts. set (columns f))"
    by blast+
  show ?thesis unfolding Let_def by (intro conjI A B C D E F)
qed

theorem merged_table_is_concatenation_witness:
  "concat_frames (contributing
     [(''A'', \<lparr> columns = [LStr ''id'', LStr ''Unnamed: 1'', LStr ''XUnnamed'', LInt 2024],
                row_index = [0, 1, 2, 3],
                rows = [[Some ''1'', Some ''junk'', Some ''x'', Some ''a''],
                        [None, Some ''only'', None, None],
                        [None, None, None, None],
                        [Some ''2'', None, None, None]] \<rparr>),
      (''Empty'', \<lparr> columns = [LStr ''ghost''], row_index = [0], rows = [[None]] \<rparr>),
      (''B'', \<lparr> columns = [LInt 2024, LStr ''name''], row_index = [0],
                rows = [[Some ''b'', Some ''n'']] \<rparr>)])
   = \<lparr> columns = [LStr ''id'', LStr ''XUnnamed'', LInt 2024, LStr ''name''],
       row_index = [0, 1, 2],
       rows = [[Some ''1'', Some ''x'', Some ''a'', None],
               [Some ''2'', None, None, None],
               [None, None, Some ''b'', Some ''n'']] \<rparr> \<and>
   (\<exists>st. merge_excel_to_parquet_bytes
           (\<lambda>f. concat (map (\<lambda>r. concat (map (case_option ''?'' id) r)) (rows f)))
     [(''A'', \<lparr> columns = [LStr ''id'', LStr ''Unnamed: 1'', LStr ''XUnnamed'', LInt 2024],
                row_index = [0, 1, 2, 3],
                rows = [[Some ''1'', Some ''junk'', Some ''x'', Some ''a''],
                        [None, Some ''only'', None, None],
                        [None, None, None, None],
                        [Some ''2'', None, None, None]] \<rparr>),
      (''Empty'', \<lparr> columns = [LStr ''ghost''], row_index = [0], rows = [[None]] \<rparr>),
      (''B'', \<lparr> columns = [LInt 2024, LStr ''name''], row_index = [0],
                rows = [[Some ''b'', Some ''n'']] \<rparr>)]
     = Inr (''1xa?2?????bn'', st) \<and> merged_rows st = 3)"
proof -
  let ?wb = "[(''A'', \<lparr> columns = [LStr ''id'', LStr ''Unnamed: 1'', LStr ''XUnnamed'', LInt 2024],
                row_index = [0, 1, 2, 3],
                rows = [[Some ''1'', Some ''junk'', Some ''x'', Some ''a''],
                        [None, Some ''only'', None, None],
                        [None, None, None, None],
                        [Some ''2'', None, None, None]] \<rparr>),
      (''Empty'', \<lparr> columns = [LStr ''ghost''], row_index = [0], rows = [[None]] \<rparr>),
      (''B'', \<lparr> columns = [LInt 2024, LStr ''name''], row_index = [0],
                rows = [[Some ''b'', Some ''n'']] \<rparr>)]"
  let ?tp = "\<lambda>f. concat (map (\<lambda>r. concat (map (case_option ''?'' id) r)) (rows f))"
  let ?F = "\<lparr> columns = [LStr ''id'', LStr ''XUnnamed'', LInt 2024, LStr ''name''],
       row_index = [0, 1, 2],
       rows = [[Some ''1'', Some ''x'', Some ''a'', None],
               [Some ''2'', None, None, None],
               [None, None, Some ''b'', Some ''n'']] \<rparr>"
  have out: "concat_frames (contributing ?wb) = ?F"
    by (simp add: concat_frames_def contributing_def cleaned_sheet_def named_column_def
          reindex_row_def Let_def str_int_def str_nat.simps digit_char_def)
  have ne: "contributing ?wb \<noteq> []"
    by (simp add: contributing_def cleaned_sheet_def named_column_def Let_def)
  have tp: "?tp ?F = ''1xa?2?????bn''"
    by simp
  have len: "length (rows ?F) = 3" by simp
  from merged_table_is_concatenation [of ?wb ?tp]
  have "case merge_excel_to_parquet_bytes ?tp ?wb of
          Inl e \<Rightarrow> contributing ?wb = []
        | Inr (bytes, st) \<Rightarrow> contributing ?wb \<noteq> [] \<and> bytes = ?tp (concat_frames (contributing ?wb)) \<and>
                              merged_rows st = length (rows (concat_frames (contributing ?wb)))"
    unfolding Let_def by (rule conjunct1)
  with ne have "\<exists>st. merge_excel_to_parquet_bytes ?tp ?wb =
                  Inr (?tp (concat_frames (contributing ?wb)), st) \<and>
                merged_rows st = length (rows (concat_frames (contributing ?wb)))"
    by (cases "merge_excel_to_parquet_bytes ?tp ?wb") auto
  then have ex: "\<exists>st. merge_excel_to_parquet_bytes ?tp ?wb = Inr (''1xa?2?????bn'', st) \<and>
                merged_rows st = 3"
    unfolding out tp len .
  from out ex show ?thesis by (rule conjI)
qed

text \<open>
  C10. The only exception the merger raises by itself is \<open>ValueError\<close>, and it raises it
  if and only if every sheet has no row left after cleaning; then there are neither bytes
  nor statistics. Otherwise it returns the bytes of the concatenation and statistics with
  the number of sheets, the total number of rows, the size of the bytes, and a row count
  for every sheet name, the empty sheets included: the keys of \<open>per_sheet_rows\<close> are the
  sheet names, and with distinct sheet names the entries are the sheets in workbook order,
  each with the number of rows it has after cleaning.
\<close>

theorem merge_value_error:
  "(\<forall>e. merge_excel_to_parquet_bytes to_parquet wb = Inl e \<longrightarrow> e = ValueError) \<and>
   (merge_excel_to_parquet_bytes to_parquet wb = Inl ValueError \<longleftrightarrow>
      list_all (\<lambda>(n, f). rows (cleaned_sheet f) = []) wb) \<and>
   (\<forall>bytes st. merge_excel_to_parquet_bytes to_parquet wb = Inr (bytes, st) \<longrightarrow>
      bytes = to_parquet (concat_frames (contributing wb)) \<and>
      parquet_size st = length bytes \<and>
      sheet_count st = length wb \<and>
      merged_rows st = sum_list (map (\<lambda>(n, f). length (rows (cleaned_sheet f))) wb) \<and>
      fst ` set (per_sheet_rows st) = fst ` set wb \<and>
      (distinct (map fst wb) \<longrightarrow>
         per_sheet_rows st = map (\<lambda>(n, f). (n, length (rows (cleaned_sheet f)))) wb))"
proof (intro conjI allI impI)
  fix e assume "merge_excel_to_parquet_bytes to_parquet wb = Inl e"
  then show "e = ValueError" by (simp add: merge_unfold split: if_splits)
next
  show "merge_excel_to_parquet_bytes to_parquet wb = Inl ValueError \<longleftrightarrow>
      list_all (\<lambda>(n, f). rows (cleaned_sheet f) = []) wb"
    by (simp add: merge_unfold contributing_Nil)
next
  fix bytes st assume r: "merge_excel_to_parquet_bytes to_parquet wb = Inr (bytes, st)"
  then have ne: "contributing wb \<noteq> []" by (simp add: merge_unfold split: if_splits)
  from r ne show "bytes = to_parquet (concat_frames (contributing wb))"
    by (simp add: merge_unfold)
  from r ne show "parquet_size st = length bytes"
    by (auto simp: merge_unfold)
  from r ne show "sheet_count st = length wb"
    by (auto simp: merge_unfold)
  from r ne show "merged_rows st = sum_list (map (\<lambda>(n, f). length (rows (cleaned_sheet f))) wb)"
    by (auto simp: merge_unfold concat_frames_length contributing_rows_sum)
  from r ne have p: "per_sheet_rows st =
      foldl (\<lambda>d (n, f). dict_set n (length (rows (cleaned_sheet f))) d) [] wb"
    by (auto simp: merge_unfold)
  show "fst ` set (per_sheet_rows st) = fst ` set wb"
    unfolding p by (simp add: foldl_dict_set_keys)
  assume "distinct (map fst wb)"
  then show "per_sheet_rows st = map (\<lambda>(n, f). (n, length (rows (cleaned_sheet f)))) wb"
    unfolding p by (simp add: foldl_dict_set_distinct)
qed

theorem merge_value_error_witness:
  "merge_excel_to_parquet_bytes (\<lambda>f. concat (map label_str (columns f)))
     [(''S1'', \<lparr> columns = [LStr ''Unnamed: 0'', LStr ''v''], row_index = [0, 1],
                 rows = [[Some ''x'', None], [None, None]] \<rparr>),
      (''S2'', \<lparr> columns = [LStr ''w''], row_index = [], rows = [] \<rparr>)]
     = Inl ValueError \<and>
   (\<exists>st. merge_excel_to_parquet_bytes (\<lambda>f. concat (map label_str (columns f)))
     [(''A'', \<lparr> columns = [LStr ''id'', LStr ''Unnamed: 1''], row_index = [0, 1, 2],
                rows = [[Some ''1'', None], [None, Some ''y''], [Some ''2'', Some ''z'']] \<rparr>),
      (''Empty'', \<lparr> columns = [LStr ''ghost''], row_index = [0], rows = [[None]] \<rparr>),
      (''B'', \<lparr> columns = [LInt 7], row_index = [0], rows = [[Some ''b'']] \<rparr>)]
     = Inr (''id7'', st) \<and>
     per_sheet_rows st = [(''A'', 2), (''Empty'', 0), (''B'', 1)] \<and>
     sheet_count st = 3 \<and> merged_rows st = 3 \<and> parquet_size st = 3)"
proof -
  let ?tp = "\<lambda>f. concat (map label_str (columns f))"
  let ?none = "[(''S1'', \<lparr> columns = [LStr ''Unnamed: 0'', LStr ''v''], row_index = [0, 1],
                 rows = [[Some ''x'', None], [None, None]] \<rparr>),
      (''S2'', \<lparr> columns = [LStr ''w''], row_index = [], rows = [] \<rparr>)]"
  let ?wb = "[(''A'', \<lparr> columns = [LStr ''id'', LStr ''Unnamed: 1''], row_index = [0, 1, 2],
                rows = [[Some ''1'', None], [None, Some ''y''], [Some ''2'', Some ''z'']] \<rparr>),
      (''Empty'', \<lparr> columns = [LStr ''ghost''], row_index = [0], rows = [[None]] \<rparr>),
      (''B'', \<lparr> columns = [LInt 7], row_index = [0], rows = [[Some ''b'']] \<rparr>)]"
  have e0: "list_all (\<lambda>(n, f). rows (cleaned_sheet f) = []) ?none"
    by (simp add: cleaned_sheet_def named_column_def Let_def)
  have e1: "\<not> list_all (\<lambda>(n, f). rows (cleaned_sheet f) = []) ?wb"
    by (simp add: cleaned_sheet_def named_column_def Let_def)
  have d: "distinct (map fst ?wb)" by simp
  have counts: "map (\<lambda>(n, f). (n, length (rows (cleaned_sheet f)))) ?wb =
                [(''A'', 2), (''Empty'', 0), (''B'', 1)]"
    by (simp add: cleaned_sheet_def named_column_def Let_def str_int_def str_nat.simps
          digit_char_def)
  have total: "sum_list (map (\<lambda>(n, f). length (rows (cleaned_sheet f))) ?wb) = 3"
    by (simp add: cleaned_sheet_def named_column_def Let_def str_int_def str_nat.simps
          digit_char_def)
  have out: "?tp (concat_frames (contributing ?wb)) = ''id7''"
    by code_simp
  from merge_value_error [of ?tp ?none] e0
  have a: "merge_excel_to_parquet_bytes ?tp ?none = Inl ValueError" by blast
  from merge_value_error [of ?tp ?wb] e1
  have n: "merge_excel_to_parquet_bytes ?tp ?wb \<noteq> Inl ValueError"
    and o: "\<And>e. merge_excel_to_parquet_bytes ?tp ?wb = Inl e \<Longrightarrow> e = ValueError"
    by blast+
  from n o obtain bytes st where r: "merge_excel_to_parquet_bytes ?tp ?wb = Inr (bytes, st)"
    by (cases "merge_excel_to_parquet_bytes ?tp ?wb") auto
  from merge_value_error [of ?tp ?wb] r d
  have "bytes = ?tp (concat_frames (contributing ?wb))"
    and "parquet_size st = length bytes"
    and "sheet_count st = length ?wb"
    and "merged_rows st = sum_list (map (\<lambda>(n, f). length (rows (cleaned_sheet f))) ?wb)"
    and "per_sheet_rows st = map (\<lambda>(n, f). (n, length (rows (cleaned_sheet f)))) ?wb"
    by blast+
  then have "bytes = ''id7''" and "parquet_size st = 3" and "sheet_count st = 3"
    and "merged_rows st = 3" and "per_sheet_rows st = [(''A'', 2), (''Empty'', 0), (''B'', 1)]"
    unfolding out counts total by simp_all
  with r have "\<exists>st. merge_excel_to_parquet_bytes ?tp ?wb = Inr (''id7'', st) \<and>
     per_sheet_rows st = [(''A'', 2), (''Empty'', 0), (''B'', 1)] \<and>
     sheet_count st = 3 \<and> merged_rows st = 3 \<and> parquet_size st = 3"
    by blast
  with a show ?thesis by (rule conjI)
qed

section \<open>Reconciler: one file per D-date\<close>

lemma re_search_Some_ex: "re_search m s = Some g \<Longrightarrow> \<exists>t. m t = Some g"
  by (induction s) (auto split: option.splits)

lemma match_D6_Some: "match_D6 t = Some d \<Longrightarrow> length d = 6 \<and> list_all is_digit d"
  by (cases t) (auto simp: match_D6_def split: if_splits)

lemma match_jv_Some: "match_jv t = Some g \<Longrightarrow> length g = 8 \<and> list_all is_digit g"
proof (cases t)
  case Nil
  assume "match_jv t = Some g"
  with Nil show ?thesis by (simp add: match_jv_def)
next
  case (Cons a t')
  assume m: "match_jv t = Some g"
  show ?thesis
  proof (cases t')
    case Nil
    with Cons m show ?thesis by (simp add: match_jv_def)
  next
    case (Cons b r)
    with \<open>t = a # t'\<close> m show ?thesis
      by (auto simp: match_jv_def split: if_splits)
  qed
qed

lemma d_of_length: "d_of fn = Some d \<Longrightarrow> length d = 6"
proof -
  assume "d_of fn = Some d"
  then have "re_search match_D6 (basename fn) = Some d"
    by (simp add: d_of_def parse_dates_from_filename_def Let_def re_search_d_date_eq)
  from re_search_Some_ex [OF this] obtain t where "match_D6 t = Some d" by blast
  then show "length d = 6" by (simp add: match_D6_Some)
qed

lemma list_all_take_drop: "list_all P xs \<Longrightarrow> list_all P (take n (drop m xs))"
  by (auto simp: list_all_iff dest: in_set_takeD in_set_dropD)

lemma jv_of_digits: "jv_of fn = Some s \<Longrightarrow> s \<noteq> [] \<and> list_all is_digit s"
proof -
  assume a: "jv_of fn = Some s"
  then obtain g where g: "re_search match_jv (basename fn) = Some g"
    and s: "s = take 2 (drop 2 g) @ take 2 (drop 4 g) @ take 2 (drop 6 g)"
    by (auto simp: jv_of_def parse_dates_from_filename_def Let_def split: option.splits)
  from re_search_Some_ex [OF g] obtain t where "match_jv t = Some g" by blast
  then have l: "length g = 8" and d: "list_all is_digit g" by (simp_all add: match_jv_Some)
  from l have "length s = 6" unfolding s by simp
  then have "s \<noteq> []" by auto
  moreover from d have "list_all is_digit s"
    unfolding s by (simp add: list_all_take_drop)
  ultimately show ?thesis by simp
qed

lemma jv_int_of_rank:
  "jv_int_of (jv_of f) < jv_int_of (jv_of g) \<longleftrightarrow> jv_rank f < jv_rank g"
proof (cases "jv_of f")
  case None
  show ?thesis
  proof (cases "jv_of g")
    case None
    with \<open>jv_of f = None\<close> show ?thesis by (simp add: jv_int_of_def jv_rank_def)
  next
    case (Some t)
    with jv_of_digits [OF Some] \<open>jv_of f = None\<close> show ?thesis
      by (simp add: jv_int_of_def jv_rank_def)
  qed
next
  case (Some s)
  note fs = Some
  show ?thesis
  proof (cases "jv_of g")
    case None
    with jv_of_digits [OF fs] fs show ?thesis by (simp add: jv_int_of_def jv_rank_def)
  next
    case (Some t)
    with jv_of_digits [OF Some] jv_of_digits [OF fs] fs show ?thesis
      by (simp add: jv_int_of_def jv_rank_def)
  qed
qed

lemma jv_int_of_rank_le:
  "jv_int_of (jv_of f) \<le> jv_int_of (jv_of g) \<longleftrightarrow> jv_rank f \<le> jv_rank g"
  using jv_int_of_rank [of g f] by (simp add: not_less [symmetric])

lemma winner_from_snoc:
  "winner_from rank cur (fs @ [f]) =
     (if rank f > rank (winner_from rank cur fs) then f else winner_from rank cur fs)"
  by (induction fs arbitrary: cur) simp_all

lemma winner_from_mem: "winner_from rank cur fs \<in> set (cur # fs)"
  by (induction fs arbitrary: cur) auto

lemma winner_from_props:
  "\<exists>i<length (cur # fs). (cur # fs) ! i = winner_from rank cur fs \<and>
      (\<forall>j<length (cur # fs). rank ((cur # fs) ! j) \<le> rank (winner_from rank cur fs)) \<and>
      (\<forall>j<i. rank ((cur # fs) ! j) < rank (winner_from rank cur fs))"
proof (induction fs rule: rev_induct)
  case Nil
  show ?case by simp
next
  case (snoc f fs)
  let ?W = "winner_from rank cur fs"
  let ?xs = "cur # fs"
  from snoc obtain i where i: "i < length ?xs" "?xs ! i = ?W"
    and mx: "\<forall>j<length ?xs. rank (?xs ! j) \<le> rank ?W"
    and fst: "\<forall>j<i. rank (?xs ! j) < rank ?W"
    by blast
  have nth_old: "\<And>j. j < length ?xs \<Longrightarrow> (cur # fs @ [f]) ! j = ?xs ! j"
    by (metis append_Cons nth_append)
  have nth_new: "(cur # fs @ [f]) ! length ?xs = f"
    by (metis append_Cons nth_append_length)
  show ?case
  proof (cases "rank f > rank ?W")
    case True
    then have w: "winner_from rank cur (fs @ [f]) = f" by (simp add: winner_from_snoc)
    have a: "length ?xs < length (cur # fs @ [f])" by simp
    have b: "\<forall>j<length (cur # fs @ [f]). rank ((cur # fs @ [f]) ! j) \<le> rank f"
    proof (intro allI impI)
      fix j assume "j < length (cur # fs @ [f])"
      then have "j < length ?xs \<or> j = length ?xs" by auto
      then show "rank ((cur # fs @ [f]) ! j) \<le> rank f"
      proof
        assume j: "j < length ?xs"
        with mx have "rank (?xs ! j) \<le> rank ?W" by blast
        with True nth_old [OF j] show ?thesis by simp
      next
        assume "j = length ?xs"
        with nth_new show ?thesis by simp
      qed
    qed
    have c: "\<forall>j<length ?xs. rank ((cur # fs @ [f]) ! j) < rank f"
    proof (intro allI impI)
      fix j assume j: "j < length ?xs"
      with mx have "rank (?xs ! j) \<le> rank ?W" by blast
      with True nth_old [OF j] show "rank ((cur # fs @ [f]) ! j) < rank f" by simp
    qed
    from a nth_new b c show ?thesis unfolding w by blast
  next
    case False
    then have w: "winner_from rank cur (fs @ [f]) = ?W" by (simp add: winner_from_snoc)
    have a: "i < length (cur # fs @ [f])" using i(1) by simp
    have e: "(cur # fs @ [f]) ! i = ?W" using nth_old [OF i(1)] i(2) by simp
    have b: "\<forall>j<length (cur # fs @ [f]). rank ((cur # fs @ [f]) ! j) \<le> rank ?W"
    proof (intro allI impI)
      fix j assume "j < length (cur # fs @ [f])"
      then have "j < length ?xs \<or> j = length ?xs" by auto
      then show "rank ((cur # fs @ [f]) ! j) \<le> rank ?W"
      proof
        assume j: "j < length ?xs"
        with mx nth_old [OF j] show ?thesis by simp
      next
        assume "j = length ?xs"
        with nth_new False show ?thesis by simp
      qed
    qed
    have c: "\<forall>j<i. rank ((cur # fs @ [f]) ! j) < rank ?W"
    proof (intro allI impI)
      fix j assume j: "j < i"
      with i(1) have "j < length ?xs" by simp
      from nth_old [OF this] fst j show "rank ((cur # fs @ [f]) ! j) < rank ?W" by simp
    qed
    from a e b c show ?thesis unfolding w by blast
  qed
qed

lemma group_of_snoc:
  "group_of (fs @ [f]) k =
     group_of fs k @ (if has_valid_ext f \<and> d_of f = Some k then [f] else [])"
  by (simp add: group_of_def)

lemma no_d_files_snoc:
  "no_d_files (fs @ [f]) =
     no_d_files fs @ (if has_valid_ext f \<and> d_of f = None then [f] else [])"
  by (simp add: no_d_files_def)

lemma group_of_mem: "w \<in> set (group_of fs k) \<Longrightarrow> w \<in> set fs \<and> has_valid_ext w \<and> d_of w = Some k"
  by (simp add: group_of_def)

lemma no_d_files_mem: "w \<in> set (no_d_files fs) \<longleftrightarrow> w \<in> set fs \<and> has_valid_ext w \<and> d_of w = None"
  by (auto simp: no_d_files_def)

lemma group_key_length: "group_of fs k \<noteq> [] \<Longrightarrow> length k = 6"
proof -
  assume "group_of fs k \<noteq> []"
  then obtain w where "w \<in> set (group_of fs k)" by (cases "group_of fs k") auto
  then have "d_of w = Some k" by (simp add: group_of_mem)
  then show ?thesis by (rule d_of_length)
qed

lemma no_d_key_not_short: "length k = 6 \<Longrightarrow> \<not> prefix ''__NO_D__::'' k"
proof
  assume l: "length k = 6" and p: "prefix ''__NO_D__::'' k"
  from p have "length ''__NO_D__::'' \<le> length k" by (rule prefix_length_le)
  with l show False by simp
qed

lemma no_d_key_group: "group_of fs (''__NO_D__::'' @ fn) = []"
proof (rule ccontr)
  assume "group_of fs (''__NO_D__::'' @ fn) \<noteq> []"
  then have "length (''__NO_D__::'' @ fn) = 6" by (rule group_key_length)
  then show False by simp
qed

lemma parse_pair: "parse_dates_from_filename fn = (d_of fn, jv_of fn)"
  by (simp add: d_of_def jv_of_def)

lemma chosen_spec_other:
  assumes "group_of (fs @ [f]) k = group_of fs k"
    and "prefix ''__NO_D__::'' k \<Longrightarrow>
           (drop 10 k \<in> set (no_d_files (fs @ [f]))) = (drop 10 k \<in> set (no_d_files fs))"
  shows "chosen_spec folder (fs @ [f]) k = chosen_spec folder fs k"
  using assms by (auto simp: chosen_spec_def split: list.splits)

lemma no_d_key_drop: "prefix ''__NO_D__::'' k \<Longrightarrow> drop 10 k = f \<Longrightarrow> k = ''__NO_D__::'' @ f"
proof -
  assume "prefix ''__NO_D__::'' k" and d: "drop 10 k = f"
  then obtain t where k: "k = ''__NO_D__::'' @ t" by (auto simp: prefix_def)
  then have "drop 10 k = t" by simp
  with d k show ?thesis by simp
qed

lemma pick_step_spec:
  assumes inv: "map_of chosen = chosen_spec folder fs"
  shows "map_of (pick_step folder chosen f) = chosen_spec folder (fs @ [f])"
proof (cases "has_valid_ext f")
  case False
  then have "pick_step folder chosen f = chosen" by (simp add: pick_step_def)
  moreover have "chosen_spec folder (fs @ [f]) = chosen_spec folder fs"
    using False by (intro ext chosen_spec_other) (simp_all add: group_of_snoc no_d_files_snoc)
  ultimately show ?thesis using inv by simp
next
  case True
  note valid = True
  show ?thesis
  proof (cases "d_of f")
    case None
    let ?key = "''__NO_D__::'' @ f"
    have e: "\<lparr> file_path = path_join folder f, d_date = None, jv_date = jv_of f, jv_int = None \<rparr>
             = result_entry folder f"
      using None by (simp add: result_entry_def)
    have step: "pick_step folder chosen f = dict_set ?key (result_entry folder f) chosen"
      using valid None e by (simp add: pick_step_def parse_pair Let_def)
    have "chosen_spec folder (fs @ [f]) k = ((chosen_spec folder fs)(?key \<mapsto> result_entry folder f)) k"
      for k
    proof (cases "k = ?key")
      case True
      have m: "f \<in> set (no_d_files (fs @ [f]))" using valid None by (simp add: no_d_files_snoc)
      have g: "group_of (fs @ [f]) ?key = []" by (rule no_d_key_group)
      have "chosen_spec folder (fs @ [f]) ?key = Some (result_entry folder f)"
        unfolding chosen_spec_def g using m by simp
      then show ?thesis
        unfolding True by simp
    next
      case False
      have "chosen_spec folder (fs @ [f]) k = chosen_spec folder fs k"
      proof (rule chosen_spec_other)
        show "group_of (fs @ [f]) k = group_of fs k"
          using None by (simp add: group_of_snoc)
        assume p: "prefix ''__NO_D__::'' k"
        have "drop 10 k \<noteq> f" using no_d_key_drop [OF p] False by blast
        then show "(drop 10 k \<in> set (no_d_files (fs @ [f]))) = (drop 10 k \<in> set (no_d_files fs))"
          by (simp add: no_d_files_snoc)
      qed
      with False show ?thesis by simp
    qed
    then show ?thesis
      unfolding step map_of_dict_set inv by (simp add: fun_eq_iff)
  next
    case (Some d)
    let ?ji = "\<lambda>fn. jv_int_of (jv_of fn)"
    let ?E = "(result_entry folder f) \<lparr> jv_int := Some (?ji f) \<rparr>"
    have e: "\<lparr> file_path = path_join folder f, d_date = Some d, jv_date = jv_of f,
               jv_int = Some (?ji f) \<rparr> = ?E"
      using Some by (simp add: result_entry_def)
    have other: "chosen_spec folder (fs @ [f]) k = chosen_spec folder fs k" if "k \<noteq> d" for k
    proof (rule chosen_spec_other)
      show "group_of (fs @ [f]) k = group_of fs k"
        using Some that by (simp add: group_of_snoc)
      show "(drop 10 k \<in> set (no_d_files (fs @ [f]))) = (drop 10 k \<in> set (no_d_files fs))"
        using Some by (simp add: no_d_files_snoc)
    qed
    have grp: "group_of (fs @ [f]) d = group_of fs d @ [f]"
      using valid Some by (simp add: group_of_snoc)
    have short: "\<not> prefix ''__NO_D__::'' d"
      using d_of_length [OF Some] by (rule no_d_key_not_short)
    show ?thesis
    proof (cases "group_of fs d")
      case Nil
      then have "chosen_spec folder fs d = None"
        using short by (simp add: chosen_spec_def)
      then have "map_of chosen d = None" using inv by simp
      then have step: "pick_step folder chosen f = dict_set d ?E chosen"
        using valid Some e by (simp add: pick_step_def parse_pair Let_def)
      have "chosen_spec folder (fs @ [f]) d = Some ?E"
        using Nil grp by (simp add: chosen_spec_def Let_def)
      with other have "chosen_spec folder (fs @ [f]) = (chosen_spec folder fs)(d \<mapsto> ?E)"
        by (auto simp: fun_eq_iff)
      then show ?thesis unfolding step map_of_dict_set inv by simp
    next
      case (Cons w ws)
      let ?W = "winner_from ?ji w ws"
      let ?cur = "(result_entry folder ?W) \<lparr> jv_int := Some (?ji ?W) \<rparr>"
      have cur: "map_of chosen d = Some ?cur"
        using Cons inv by (simp add: chosen_spec_def Let_def)
      have jc: "(case jv_int ?cur of None \<Rightarrow> - 1 | Some x \<Rightarrow> x) = ?ji ?W" by simp
      have new: "chosen_spec folder (fs @ [f]) d =
                 Some (if ?ji f > ?ji ?W then ?E else ?cur)"
        using Cons grp by (simp add: chosen_spec_def Let_def winner_from_snoc)
      show ?thesis
      proof (cases "?ji f > ?ji ?W")
        case True
        then have step: "pick_step folder chosen f = dict_set d ?E chosen"
          using valid Some e cur jc by (simp add: pick_step_def parse_pair Let_def)
        from new True have "chosen_spec folder (fs @ [f]) d = Some ?E" by simp
        with other have "chosen_spec folder (fs @ [f]) = (chosen_spec folder fs)(d \<mapsto> ?E)"
          by (auto simp: fun_eq_iff)
        then show ?thesis unfolding step map_of_dict_set inv by simp
      next
        case False
        then have step: "pick_step folder chosen f = chosen"
          using valid Some cur jc by (simp add: pick_step_def parse_pair Let_def)
        from new False have "chosen_spec folder (fs @ [f]) d = Some ?cur" by simp
        with cur inv have "chosen_spec folder (fs @ [f]) d = chosen_spec folder fs d" by simp
        with other have "chosen_spec folder (fs @ [f]) = chosen_spec folder fs"
          by (intro ext) metis
        then show ?thesis unfolding step inv by simp
      qed
    qed
  qed
qed

lemma pick_step_distinct:
  "distinct (map fst chosen) \<Longrightarrow> distinct (map fst (pick_step folder chosen f))"
  by (auto simp: pick_step_def Let_def distinct_dict_set split: option.splits prod.splits)

lemma chosen_after_loop:
  "map_of (foldl (pick_step folder) [] fs) = chosen_spec folder fs \<and>
   distinct (map fst (foldl (pick_step folder) [] fs))"
proof (induction fs rule: rev_induct)
  case Nil
  show ?case by (simp add: chosen_spec_def group_of_def no_d_files_def fun_eq_iff)
next
  case (snoc f fs)
  then show ?case by (simp add: pick_step_spec pick_step_distinct)
qed

lemma chosen_spec_cases:
  assumes "chosen_spec folder fs k = Some v"
  shows "(\<exists>w \<in> set (group_of fs k).
            v = (result_entry folder w) \<lparr> jv_int := Some (jv_int_of (jv_of w)) \<rparr>) \<or>
         (drop 10 k \<in> set (no_d_files fs) \<and> v = result_entry folder (drop 10 k))"
proof (cases "group_of fs k")
  case Nil
  with assms show ?thesis by (auto simp: chosen_spec_def split: if_splits)
next
  case (Cons w ws)
  let ?W = "winner_from (\<lambda>fn. jv_int_of (jv_of fn)) w ws"
  from Cons assms have "v = (result_entry folder ?W) \<lparr> jv_int := Some (jv_int_of (jv_of ?W)) \<rparr>"
    by (simp add: chosen_spec_def Let_def)
  moreover have "?W \<in> set (group_of fs k)"
    unfolding Cons by (rule winner_from_mem)
  ultimately show ?thesis by blast
qed

lemma chosen_spec_d_date:
  assumes "chosen_spec folder fs k = Some v" and "d_date v = Some d"
  shows "k = d"
proof -
  from chosen_spec_cases [OF assms(1)] show ?thesis
  proof
    assume "\<exists>w \<in> set (group_of fs k).
              v = (result_entry folder w) \<lparr> jv_int := Some (jv_int_of (jv_of w)) \<rparr>"
    then obtain w where w: "w \<in> set (group_of fs k)"
      and v: "v = (result_entry folder w) \<lparr> jv_int := Some (jv_int_of (jv_of w)) \<rparr>"
      by blast
    from w have "d_of w = Some k" by (simp add: group_of_mem)
    with v assms(2) show ?thesis by (simp add: result_entry_def)
  next
    assume a: "drop 10 k \<in> set (no_d_files fs) \<and> v = result_entry folder (drop 10 k)"
    then have "d_of (drop 10 k) = None" by (simp add: no_d_files_mem)
    with a assms(2) show ?thesis by (simp add: result_entry_def)
  qed
qed

lemma same_key_once:
  assumes "distinct (map fst ps)" and "\<And>p. p \<in> set ps \<Longrightarrow> Q p \<Longrightarrow> fst p = d"
  shows "length (filter Q ps) \<le> 1"
proof -
  let ?xs = "filter Q ps"
  have dist: "distinct (map fst ?xs)" using assms(1) by (rule distinct_map_filter)
  have key: "\<And>p. p \<in> set ?xs \<Longrightarrow> fst p = d" using assms(2) by simp
  show ?thesis
  proof (cases ?xs)
    case Nil
    then show ?thesis by simp
  next
    case (Cons x ys)
    show ?thesis
    proof (cases ys)
      case Nil
      with Cons show ?thesis by simp
    next
      case (Cons y zs)
      with \<open>?xs = x # ys\<close> have "x \<in> set ?xs" "y \<in> set ?xs" by simp_all
      then have "fst x = fst y" using key by simp
      moreover from dist \<open>?xs = x # ys\<close> Cons have "fst x \<noteq> fst y" by simp
      ultimately show ?thesis by blast
    qed
  qed
qed

lemma pick_latest_set:
  "set (pick_latest_files_by_duplicate_d_date folder fs) =
     {v \<lparr> jv_int := None \<rparr> | k v. chosen_spec folder fs k = Some v}"
proof -
  let ?chosen = "foldl (pick_step folder) [] fs"
  from chosen_after_loop [of folder fs]
  have m: "map_of ?chosen = chosen_spec folder fs" and d: "distinct (map fst ?chosen)"
    by blast+
  have mem: "\<And>k v. (k, v) \<in> set ?chosen \<longleftrightarrow> chosen_spec folder fs k = Some v"
    using map_of_eq_Some_iff [OF d] m by simp
  have "set (pick_latest_files_by_duplicate_d_date folder fs) =
        (\<lambda>(k, v). v \<lparr> jv_int := None \<rparr>) ` set ?chosen"
    by (simp add: pick_latest_files_by_duplicate_d_date_def Let_def)
  also have "\<dots> = {v \<lparr> jv_int := None \<rparr> | k v. chosen_spec folder fs k = Some v}"
    using mem by (auto simp: image_iff)
  finally show ?thesis .
qed

lemma pick_latest_one_per_key:
  "length (filter (\<lambda>r. d_date r = Some d) (pick_latest_files_by_duplicate_d_date folder fs)) \<le> 1"
proof -
  let ?chosen = "foldl (pick_step folder) [] fs"
  let ?g = "\<lambda>(k, v). v \<lparr> jv_int := None \<rparr>"
  let ?P = "\<lambda>r. d_date r = Some d"
  from chosen_after_loop [of folder fs]
  have m: "map_of ?chosen = chosen_spec folder fs" and dist: "distinct (map fst ?chosen)"
    by blast+
  have "length (filter ?P (pick_latest_files_by_duplicate_d_date folder fs)) =
        length (filter ?P (map ?g ?chosen))"
    by (simp add: pick_latest_files_by_duplicate_d_date_def Let_def filter_sort)
  also have "\<dots> = length (filter (?P \<circ> ?g) ?chosen)"
    by (simp add: filter_map)
  also have "\<dots> \<le> 1"
  proof (rule same_key_once [OF dist, where d = d])
    fix p assume p: "p \<in> set ?chosen" and q: "(?P \<circ> ?g) p"
    obtain k v where kv: "p = (k, v)" by (cases p) auto
    from p kv have "chosen_spec folder fs k = Some v"
      using map_of_eq_Some_iff [OF dist] m by simp
    moreover from q kv have "d_date v = Some d" by simp
    ultimately have "k = d" by (rule chosen_spec_d_date)
    with kv show "fst p = d" by simp
  qed
  finally show ?thesis .
qed

lemma result_entry_pop:
  "(result_entry folder w) \<lparr> jv_int := Some x \<rparr> \<lparr> jv_int := None \<rparr> = result_entry folder w"
  "(result_entry folder w) \<lparr> jv_int := None \<rparr> = result_entry folder w"
  by (simp_all add: result_entry_def)

lemma group_of_filter:
  "group_of fs d = filter (\<lambda>fn. d_of fn = Some d) (filter has_valid_ext fs)"
  by (simp add: group_of_def conj_commute)

text \<open>
  C1. For every folder and list of file names, with \<open>V\<close> the names that end, case
  ignored, in one of the recognised extensions: the result holds at most one entry per
  D-date; for every D-date that some name of \<open>V\<close> yields, the result holds the entry of a
  name of that D-date whose JV number is the largest among the names of that D-date, a
  missing JV token counting below every number, and is the first in list order with that
  number; every name of \<open>V\<close> without a D-date has its entry in the result; and every
  entry of the result is the entry of a name of \<open>V\<close>, so that names without a recognised
  extension contribute nothing.
\<close>

theorem pick_latest_one_per_d_date:
  "(let R = pick_latest_files_by_duplicate_d_date folder fs;
        V = filter has_valid_ext fs
    in (\<forall>d. length (filter (\<lambda>r. d_date r = Some d) R) \<le> 1) \<and>
       (\<forall>d. let G = filter (\<lambda>fn. d_of fn = Some d) V
            in G \<noteq> [] \<longrightarrow>
               (\<exists>i<length G. result_entry folder (G ! i) \<in> set R \<and>
                  (\<forall>j<length G. jv_rank (G ! j) \<le> jv_rank (G ! i)) \<and>
                  (\<forall>j<i. jv_rank (G ! j) < jv_rank (G ! i)))) \<and>
       (\<forall>fn \<in> set V. d_of fn = None \<longrightarrow> result_entry folder fn \<in> set R) \<and>
       set R \<subseteq> result_entry folder ` set V)"
proof -
  let ?R = "pick_latest_files_by_duplicate_d_date folder fs"
  let ?V = "filter has_valid_ext fs"
  let ?ji = "\<lambda>fn. jv_int_of (jv_of fn)"
  have A: "\<forall>d. length (filter (\<lambda>r. d_date r = Some d) ?R) \<le> 1"
    by (intro allI pick_latest_one_per_key)
  have B: "\<forall>d. let G = filter (\<lambda>fn. d_of fn = Some d) ?V
            in G \<noteq> [] \<longrightarrow>
               (\<exists>i<length G. result_entry folder (G ! i) \<in> set ?R \<and>
                  (\<forall>j<length G. jv_rank (G ! j) \<le> jv_rank (G ! i)) \<and>
                  (\<forall>j<i. jv_rank (G ! j) < jv_rank (G ! i)))"
  proof (intro allI)
    fix d
    let ?G = "group_of fs d"
    have "?G \<noteq> [] \<longrightarrow>
               (\<exists>i<length ?G. result_entry folder (?G ! i) \<in> set ?R \<and>
                  (\<forall>j<length ?G. jv_rank (?G ! j) \<le> jv_rank (?G ! i)) \<and>
                  (\<forall>j<i. jv_rank (?G ! j) < jv_rank (?G ! i)))"
    proof
      assume "?G \<noteq> []"
      then obtain w ws where g: "?G = w # ws" by (cases ?G) auto
      let ?W = "winner_from ?ji w ws"
      have "chosen_spec folder fs d = Some ((result_entry folder ?W) \<lparr> jv_int := Some (?ji ?W) \<rparr>)"
        using g by (simp add: chosen_spec_def Let_def)
      then have "(result_entry folder ?W) \<lparr> jv_int := Some (?ji ?W) \<rparr> \<lparr> jv_int := None \<rparr> \<in> set ?R"
        unfolding pick_latest_set by blast
      then have inR: "result_entry folder ?W \<in> set ?R" by (simp only: result_entry_pop)
      from winner_from_props [of w ws ?ji] obtain i where i: "i < length (w # ws)"
        and wi: "(w # ws) ! i = ?W"
        and mx: "\<forall>j<length (w # ws). ?ji ((w # ws) ! j) \<le> ?ji ?W"
        and fi: "\<forall>j<i. ?ji ((w # ws) ! j) < ?ji ?W"
        by blast
      from mx wi have mx': "\<forall>j<length ?G. jv_rank (?G ! j) \<le> jv_rank (?G ! i)"
        unfolding g by (simp add: jv_int_of_rank_le)
      from fi wi have fi': "\<forall>j<i. jv_rank (?G ! j) < jv_rank (?G ! i)"
        unfolding g by (simp add: jv_int_of_rank)
      from i inR wi mx' fi'
      show "\<exists>i<length ?G. result_entry folder (?G ! i) \<in> set ?R \<and>
                  (\<forall>j<length ?G. jv_rank (?G ! j) \<le> jv_rank (?G ! i)) \<and>
                  (\<forall>j<i. jv_rank (?G ! j) < jv_rank (?G ! i))"
        unfolding g by metis
    qed
    then show "let G = filter (\<lambda>fn. d_of fn = Some d) ?V
            in G \<noteq> [] \<longrightarrow>
               (\<exists>i<length G. result_entry folder (G ! i) \<in> set ?R \<and>
                  (\<forall>j<length G. jv_rank (G ! j) \<le> jv_rank (G ! i)) \<and>
                  (\<forall>j<i. jv_rank (G ! j) < jv_rank (G ! i)))"
      unfolding Let_def group_of_filter .
  qed
  have C: "\<forall>fn \<in> set ?V. d_of fn = None \<longrightarrow> result_entry folder fn \<in> set ?R"
  proof (intro ballI impI)
    fix fn assume v: "fn \<in> set ?V" and n: "d_of fn = None"
    then have m: "fn \<in> set (no_d_files fs)" by (simp add: no_d_files_mem)
    have g: "group_of fs (''__NO_D__::'' @ fn) = []" by (rule no_d_key_group)
    have "chosen_spec folder fs (''__NO_D__::'' @ fn) = Some (result_entry folder fn)"
      unfolding chosen_spec_def g using m by simp
    then have "(result_entry folder fn) \<lparr> jv_int := None \<rparr> \<in> set ?R"
      unfolding pick_latest_set by blast
    then show "result_entry folder fn \<in> set ?R" by (simp only: result_entry_pop)
  qed
  have D: "set ?R \<subseteq> result_entry folder ` set ?V"
  proof
    fix r assume "r \<in> set ?R"
    then obtain k v where kv: "chosen_spec folder fs k = Some v" and r: "r = v \<lparr> jv_int := None \<rparr>"
      unfolding pick_latest_set by blast
    from chosen_spec_cases [OF kv] show "r \<in> result_entry folder ` set ?V"
    proof
      assume "\<exists>w \<in> set (group_of fs k).
                v = (result_entry folder w) \<lparr> jv_int := Some (jv_int_of (jv_of w)) \<rparr>"
      then obtain w where w: "w \<in> set (group_of fs k)"
        and v: "v = (result_entry folder w) \<lparr> jv_int := Some (jv_int_of (jv_of w)) \<rparr>"
        by blast
      from r v have "r = result_entry folder w" by (simp only: result_entry_pop)
      moreover from w have "w \<in> set ?V" by (simp add: group_of_mem)
      ultimately show ?thesis by blast
    next
      assume a: "drop 10 k \<in> set (no_d_files fs) \<and> v = result_entry folder (drop 10 k)"
      with r have "r = result_entry folder (drop 10 k)" by (simp only: result_entry_pop)
      moreover from a have "drop 10 k \<in> set ?V" by (simp add: no_d_files_mem)
      ultimately show ?thesis by blast
    qed
  qed
  from A B C D show ?thesis unfolding Let_def by blast
qed

theorem pick_latest_one_per_d_date_witness:
  "pick_latest_files_by_duplicate_d_date ''/tmp/t''
     [''W_D250202.XLS'', ''V_D250202_JV00000000.csv'', ''readme.txt'', ''ATM_D250101_JV20250102.csv'', ''atm_d250101_jv20250105.TXT'', ''X-D250101.xlsx'', ''Y_D250101_JV20250105.trf'', ''Z_D250101_JV20259999.pdf'']
   = [\<lparr> file_path = ''/tmp/t/atm_d250101_jv20250105.TXT'', d_date = Some ''250101'', jv_date = Some ''250105'', jv_int = None \<rparr>,
      \<lparr> file_path = ''/tmp/t/readme.txt'', d_date = None, jv_date = None, jv_int = None \<rparr>,
      \<lparr> file_path = ''/tmp/t/V_D250202_JV00000000.csv'', d_date = Some ''250202'', jv_date = Some ''000000'', jv_int = None \<rparr>] \<and>
   filter (\<lambda>fn. d_of fn = Some ''250101'')
     (filter has_valid_ext
        [''W_D250202.XLS'', ''V_D250202_JV00000000.csv'', ''readme.txt'', ''ATM_D250101_JV20250102.csv'', ''atm_d250101_jv20250105.TXT'', ''X-D250101.xlsx'', ''Y_D250101_JV20250105.trf'', ''Z_D250101_JV20259999.pdf''])
   = [''ATM_D250101_JV20250102.csv'', ''atm_d250101_jv20250105.TXT'', ''X-D250101.xlsx'', ''Y_D250101_JV20250105.trf''] \<and>
   map jv_rank [''ATM_D250101_JV20250102.csv'', ''atm_d250101_jv20250105.TXT'', ''X-D250101.xlsx'', ''Y_D250101_JV20250105.trf''] = [Some 250102, Some 250105, None, Some 250105] \<and>
   length (filter (\<lambda>r. d_date r = Some ''250101'')
     (pick_latest_files_by_duplicate_d_date ''/tmp/t''
        [''W_D250202.XLS'', ''V_D250202_JV00000000.csv'', ''readme.txt'', ''ATM_D250101_JV20250102.csv'', ''atm_d250101_jv20250105.TXT'', ''X-D250101.xlsx'', ''Y_D250101_JV20250105.trf'', ''Z_D250101_JV20259999.pdf''])) \<le> 1 \<and>
   result_entry ''/tmp/t'' ''readme.txt'' \<in> set
     (pick_latest_files_by_duplicate_d_date ''/tmp/t''
        [''W_D250202.XLS'', ''V_D250202_JV00000000.csv'', ''readme.txt'', ''ATM_D250101_JV20250102.csv'', ''atm_d250101_jv20250105.TXT'', ''X-D250101.xlsx'', ''Y_D250101_JV20250105.trf'', ''Z_D250101_JV20259999.pdf''])"
proof -
  let ?fs = "[''W_D250202.XLS'', ''V_D250202_JV00000000.csv'', ''readme.txt'', ''ATM_D250101_JV20250102.csv'', ''atm_d250101_jv20250105.TXT'', ''X-D250101.xlsx'', ''Y_D250101_JV20250105.trf'', ''Z_D250101_JV20259999.pdf'']"
  have p0: "parse_dates_from_filename ''W_D250202.XLS'' = (Some ''250202'', None)"
    by code_simp
  have v0: "has_valid_ext ''W_D250202.XLS''"
    by code_simp
  have j0: "path_join ''/tmp/t'' ''W_D250202.XLS'' = ''/tmp/t/W_D250202.XLS''"
    by code_simp
  have p1: "parse_dates_from_filename ''V_D250202_JV00000000.csv'' = (Some ''250202'', Some ''000000'')"
    by code_simp
  have v1: "has_valid_ext ''V_D250202_JV00000000.csv''"
    by code_simp
  have j1: "path_join ''/tmp/t'' ''V_D250202_JV00000000.csv'' = ''/tmp/t/V_D250202_JV00000000.csv''"
    by code_simp
  have p2: "parse_dates_from_filename ''readme.txt'' = (None, None)"
    by code_simp
  have v2: "has_valid_ext ''readme.txt''"
    by code_simp
  have j2: "path_join ''/tmp/t'' ''readme.txt'' = ''/tmp/t/readme.txt''"
    by code_simp
  have p3: "parse_dates_from_filename ''ATM_D250101_JV20250102.csv'' = (Some ''250101'', Some ''250102'')"
    by code_simp
  have v3: "has_valid_ext ''ATM_D250101_JV20250102.csv''"
    by code_simp
  have j3: "path_join ''/tmp/t'' ''ATM_D250101_JV20250102.csv'' = ''/tmp/t/ATM_D250101_JV20250102.csv''"
    by code_simp
  have p4: "parse_dates_from_filename ''atm_d250101_jv20250105.TXT'' = (Some ''250101'', Some ''250105'')"
    by code_simp
  have v4: "has_valid_ext ''atm_d250101_jv20250105.TXT''"
    by code_simp
  have j4: "path_join ''/tmp/t'' ''atm_d250101_jv20250105.TXT'' = ''/tmp/t/atm_d250101_jv20250105.TXT''"
    by code_simp
  have p5: "parse_dates_from_filename ''X-D250101.xlsx'' = (Some ''250101'', None)"
    by code_simp
  have v5: "has_valid_ext ''X-D250101.xlsx''"
    by code_simp
  have j5: "path_join ''/tmp/t'' ''X-D250101.xlsx'' = ''/tmp/t/X-D250101.xlsx''"
    by code_simp
  have p6: "parse_dates_from_filename ''Y_D250101_JV20250105.trf'' = (Some ''250101'', Some ''250105'')"
    by code_simp
  have v6: "has_valid_ext ''Y_D250101_JV20250105.trf''"
    by code_simp
  have j6: "path_join ''/tmp/t'' ''Y_D250101_JV20250105.trf'' = ''/tmp/t/Y_D250101_JV20250105.trf''"
    by code_simp
  have p7: "parse_dates_from_filename ''Z_D250101_JV20259999.pdf'' = (Some ''250101'', Some ''259999'')"
    by code_simp
  have v7: "\<not> has_valid_ext ''Z_D250101_JV20259999.pdf''"
    by code_simp
  have j7: "path_join ''/tmp/t'' ''Z_D250101_JV20259999.pdf'' = ''/tmp/t/Z_D250101_JV20259999.pdf''"
    by code_simp
  have n0: "jv_int_of (Some ''000000'') = 0"
    by (simp add: jv_int_of_def digits_value_def is_digit_def)
  have r0: "digits_value ''000000'' = 0"
    by (simp add: digits_value_def)
  have n1: "jv_int_of (Some ''250102'') = 250102"
    by (simp add: jv_int_of_def digits_value_def is_digit_def)
  have r1: "digits_value ''250102'' = 250102"
    by (simp add: digits_value_def)
  have n2: "jv_int_of (Some ''250105'') = 250105"
    by (simp add: jv_int_of_def digits_value_def is_digit_def)
  have r2: "digits_value ''250105'' = 250105"
    by (simp add: digits_value_def)
  have n3: "jv_int_of (Some ''259999'') = 259999"
    by (simp add: jv_int_of_def digits_value_def is_digit_def)
  have r3: "digits_value ''259999'' = 259999"
    by (simp add: digits_value_def)
  have nn: "jv_int_of None = - 1" by (simp add: jv_int_of_def)
  have s0: "pick_step ''/tmp/t'' [] ''W_D250202.XLS'' = [(''250202'', \<lparr> file_path = ''/tmp/t/W_D250202.XLS'', d_date = Some ''250202'', jv_date = None, jv_int = Some (- 1) \<rparr>)]"
    by (simp add: pick_step_def Let_def p0 v0 j0 nn n0 n1 n2 n3)
  have s1: "pick_step ''/tmp/t'' [(''250202'', \<lparr> file_path = ''/tmp/t/W_D250202.XLS'', d_date = Some ''250202'', jv_date = None, jv_int = Some (- 1) \<rparr>)] ''V_D250202_JV00000000.csv'' = [(''250202'', \<lparr> file_path = ''/tmp/t/V_D250202_JV00000000.csv'', d_date = Some ''250202'', jv_date = Some ''000000'', jv_int = Some (0) \<rparr>)]"
    by (simp add: pick_step_def Let_def p1 v1 j1 nn n0 n1 n2 n3)
  have s2: "pick_step ''/tmp/t'' [(''250202'', \<lparr> file_path = ''/tmp/t/V_D250202_JV00000000.csv'', d_date = Some ''250202'', jv_date = Some ''000000'', jv_int = Some (0) \<rparr>)] ''readme.txt'' = [(''250202'', \<lparr> file_path = ''/tmp/t/V_D250202_JV00000000.csv'', d_date = Some ''250202'', jv_date = Some ''000000'', jv_int = Some (0) \<rparr>), (''__NO_D__::readme.txt'', \<lparr> file_path = ''/tmp/t/readme.txt'', d_date = None, jv_date = None, jv_int = None \<rparr>)]"
    by (simp add: pick_step_def Let_def p2 v2 j2 nn n0 n1 n2 n3)
  have s3: "pick_step ''/tmp/t'' [(''250202'', \<lparr> file_path = ''/tmp/t/V_D250202_JV00000000.csv'', d_date = Some ''250202'', jv_date = Some ''000000'', jv_int = Some (0) \<rparr>), (''__NO_D__::readme.txt'', \<lparr> file_path = ''/tmp/t/readme.txt'', d_date = None, jv_date = None, jv_int = None \<rparr>)] ''ATM_D250101_JV20250102.csv'' = [(''250202'', \<lparr> file_path = ''/tmp/t/V_D250202_JV00000000.csv'', d_date = Some ''250202'', jv_date = Some ''000000'', jv_int = Some (0) \<rparr>), (''__NO_D__::readme.txt'', \<lparr> file_path = ''/tmp/t/readme.txt'', d_date = None, jv_date = None, jv_int = None \<rparr>), (''250101'', \<lparr> file_path = ''/tmp/t/ATM_D250101_JV20250102.csv'', d_date = Some ''250101'', jv_date = Some ''250102'', jv_int = Some (250102) \<rparr>)]"
    by (simp add: pick_step_def Let_def p3 v3 j3 nn n0 n1 n2 n3)
  have s4: "pick_step ''/tmp/t'' [(''250202'', \<lparr> file_path = ''/tmp/t/V_D250202_JV00000000.csv'', d_date = Some ''250202'', jv_date = Some ''000000'', jv_int = Some (0) \<rparr>), (''__NO_D__::readme.txt'', \<lparr> file_path = ''/tmp/t/readme.txt'', d_date = None, jv_date = None, jv_int = None \<rparr>), (''250101'', \<lparr> file_path = ''/tmp/t/ATM_D250101_JV20250102.csv'', d_date = Some ''250101'', jv_date = Some ''250102'', jv_int = Some (250102) \<rparr>)] ''atm_d250101_jv20250105.TXT'' = [(''250202'', \<lparr> file_path = ''/tmp/t/V_D250202_JV00000000.csv'', d_date = Some ''250202'', jv_date = Some ''000000'', jv_int = Some (0) \<rparr>), (''__NO_D__::readme.txt'', \<lparr> file_path = ''/tmp/t/readme.txt'', d_date = None, jv_date = None, jv_int = None \<rparr>), (''250101'', \<lparr> file_path = ''/tmp/t/atm_d250101_jv20250105.TXT'', d_date = Some ''250101'', jv_date = Some ''250105'', jv_int = Some (250105) \<rparr>)]"
    by (simp add: pick_step_def Let_def p4 v4 j4 nn n0 n1 n2 n3)
  have s5: "pick_step ''/tmp/t'' [(''250202'', \<lparr> file_path = ''/tmp/t/V_D250202_JV00000000.csv'', d_date = Some ''250202'', jv_date = Some ''000000'', jv_int = Some (0) \<rparr>), (''__NO_D__::readme.txt'', \<lparr> file_path = ''/tmp/t/readme.txt'', d_date = None, jv_date = None, jv_int = None \<rparr>), (''250101'', \<lparr> file_path = ''/tmp/t/atm_d250101_jv20250105.TXT'', d_date = Some ''250101'', jv_date = Some ''250105'', jv_int = Some (250105) \<rparr>)] ''X-D250101.xlsx'' = [(''250202'', \<lparr> file_path = ''/tmp/t/V_D250202_JV00000000.csv'', d_date = Some ''250202'', jv_date = Some ''000000'', jv_int = Some (0) \<rparr>), (''__NO_D__::readme.txt'', \<lparr> file_path = ''/tmp/t/readme.txt'', d_date = None, jv_date = None, jv_int = None \<rparr>), (''250101'', \<lparr> file_path = ''/tmp/t/atm_d250101_jv20250105.TXT'', d_date = Some ''250101'', jv_date = Some ''250105'', jv_int = Some (250105) \<rparr>)]"
    by (simp add: pick_step_def Let_def p5 v5 j5 nn n0 n1 n2 n3)
  have s6: "pick_step ''/tmp/t'' [(''250202'', \<lparr> file_path = ''/tmp/t/V_D250202_JV00000000.csv'', d_date = Some ''250202'', jv_date = Some ''000000'', jv_int = Some (0) \<rparr>), (''__NO_D__::readme.txt'', \<lparr> file_path = ''/tmp/t/readme.txt'', d_date = None, jv_date = None, jv_int = None \<rparr>), (''250101'', \<lparr> file_path = ''/tmp/t/atm_d250101_jv20250105.TXT'', d_date = Some ''250101'', jv_date = Some ''250105'', jv_int = Some (250105) \<rparr>)] ''Y_D250101_JV20250105.trf'' = [(''250202'', \<lparr> file_path = ''/tmp/t/V_D250202_JV00000000.csv'', d_date = Some ''250202'', jv_date = Some ''000000'', jv_int = Some (0) \<rparr>), (''__NO_D__::readme.txt'', \<lparr> file_path = ''/tmp/t/readme.txt'', d_date = None, jv_date = None, jv_int = None \<rparr>), (''250101'', \<lparr> file_path = ''/tmp/t/atm_d250101_jv20250105.TXT'', d_date = Some ''250101'', jv_date = Some ''250105'', jv_int = Some (250105) \<rparr>)]"
    by (simp add: pick_step_def Let_def p6 v6 j6 nn n0 n1 n2 n3)
  have s7: "pick_step ''/tmp/t'' [(''250202'', \<lparr> file_path = ''/tmp/t/V_D250202_JV00000000.csv'', d_date = Some ''250202'', jv_date = Some ''000000'', jv_int = Some (0) \<rparr>), (''__NO_D__::readme.txt'', \<lparr> file_path = ''/tmp/t/readme.txt'', d_date = None, jv_date = None, jv_int = None \<rparr>), (''250101'', \<lparr> file_path = ''/tmp/t/atm_d250101_jv20250105.TXT'', d_date = Some ''250101'', jv_date = Some ''250105'', jv_int = Some (250105) \<rparr>)] ''Z_D250101_JV20259999.pdf'' = [(''250202'', \<lparr> file_path = ''/tmp/t/V_D250202_JV00000000.csv'', d_date = Some ''250202'', jv_date = Some ''000000'', jv_int = Some (0) \<rparr>), (''__NO_D__::readme.txt'', \<lparr> file_path = ''/tmp/t/readme.txt'', d_date = None, jv_date = None, jv_int = None \<rparr>), (''250101'', \<lparr> file_path = ''/tmp/t/atm_d250101_jv20250105.TXT'', d_date = Some ''250101'', jv_date = Some ''250105'', jv_int = Some (250105) \<rparr>)]"
    by (simp add: pick_step_def Let_def p7 v7 j7 nn n0 n1 n2 n3)
  have ch: "foldl (pick_step ''/tmp/t'') [] ?fs = [(''250202'', \<lparr> file_path = ''/tmp/t/V_D250202_JV00000000.csv'', d_date = Some ''250202'', jv_date = Some ''000000'', jv_int = Some (0) \<rparr>), (''__NO_D__::readme.txt'', \<lparr> file_path = ''/tmp/t/readme.txt'', d_date = None, jv_date = None, jv_int = None \<rparr>), (''250101'', \<lparr> file_path = ''/tmp/t/atm_d250101_jv20250105.TXT'', d_date = Some ''250101'', jv_date = Some ''250105'', jv_int = Some (250105) \<rparr>)]"
    by (simp add: s0 s1 s2 s3 s4 s5 s6 s7)
  have k0: "py_lower (basename ''/tmp/t/V_D250202_JV00000000.csv'') = ''v_d250202_jv00000000.csv''"
    by code_simp
  have k1: "py_lower (basename ''/tmp/t/readme.txt'') = ''readme.txt''"
    by code_simp
  have k2: "py_lower (basename ''/tmp/t/atm_d250101_jv20250105.TXT'') = ''atm_d250101_jv20250105.txt''"
    by code_simp
  have c0: "\<not> ''v_d250202_jv00000000.csv'' \<le> ''readme.txt''"
    by code_simp
  have c1: "\<not> ''v_d250202_jv00000000.csv'' \<le> ''atm_d250101_jv20250105.txt''"
    by code_simp
  have c2: "''readme.txt'' \<le> ''v_d250202_jv00000000.csv''"
    by code_simp
  have c3: "\<not> ''readme.txt'' \<le> ''atm_d250101_jv20250105.txt''"
    by code_simp
  have c4: "''atm_d250101_jv20250105.txt'' \<le> ''v_d250202_jv00000000.csv''"
    by code_simp
  have c5: "''atm_d250101_jv20250105.txt'' \<le> ''readme.txt''"
    by code_simp
  have ev: "pick_latest_files_by_duplicate_d_date ''/tmp/t'' ?fs
   = [\<lparr> file_path = ''/tmp/t/atm_d250101_jv20250105.TXT'', d_date = Some ''250101'', jv_date = Some ''250105'', jv_int = None \<rparr>,
      \<lparr> file_path = ''/tmp/t/readme.txt'', d_date = None, jv_date = None, jv_int = None \<rparr>,
      \<lparr> file_path = ''/tmp/t/V_D250202_JV00000000.csv'', d_date = Some ''250202'', jv_date = Some ''000000'', jv_int = None \<rparr>]"
    unfolding pick_latest_files_by_duplicate_d_date_def Let_def ch
    by (simp add: k0 k1 k2 c0 c1 c2 c3 c4 c5)
  have val: "filter has_valid_ext ?fs = [''W_D250202.XLS'', ''V_D250202_JV00000000.csv'', ''readme.txt'', ''ATM_D250101_JV20250102.csv'', ''atm_d250101_jv20250105.TXT'', ''X-D250101.xlsx'', ''Y_D250101_JV20250105.trf'']"
    by (simp add: v0 v1 v2 v3 v4 v5 v6 v7)
  have grp: "filter (\<lambda>fn. d_of fn = Some ''250101'') (filter has_valid_ext ?fs)
   = [''ATM_D250101_JV20250102.csv'', ''atm_d250101_jv20250105.TXT'', ''X-D250101.xlsx'', ''Y_D250101_JV20250105.trf'']"
    unfolding val by (simp add: d_of_def p0 p1 p2 p3 p4 p5 p6 p7)
  have rk: "map jv_rank [''ATM_D250101_JV20250102.csv'', ''atm_d250101_jv20250105.TXT'', ''X-D250101.xlsx'', ''Y_D250101_JV20250105.trf''] = [Some 250102, Some 250105, None, Some 250105]"
    by (simp add: jv_rank_def jv_of_def p0 p1 p2 p3 p4 p5 p6 p7 r0 r1 r2 r3)
  have v: "''readme.txt'' \<in> set (filter has_valid_ext ?fs)"
    unfolding val by simp
  have n: "d_of ''readme.txt'' = None"
    by (simp add: d_of_def p0 p1 p2 p3 p4 p5 p6 p7)
  note T = pick_latest_one_per_d_date [of "''/tmp/t''" ?fs, unfolded Let_def]
  from T have one: "length (filter (\<lambda>r. d_date r = Some ''250101'')
               (pick_latest_files_by_duplicate_d_date ''/tmp/t'' ?fs)) \<le> 1"
    by (elim conjE allE)
  from T have nod: "\<forall>fn \<in> set (filter has_valid_ext ?fs). d_of fn = None \<longrightarrow>
               result_entry ''/tmp/t'' fn \<in> set (pick_latest_files_by_duplicate_d_date ''/tmp/t'' ?fs)"
    by (elim conjE)
  from nod [rule_format, OF v n]
  have rd: "result_entry ''/tmp/t'' ''readme.txt'' \<in> set
     (pick_latest_files_by_duplicate_d_date ''/tmp/t'' ?fs)" .
  from ev grp rk one rd show ?thesis by (intro conjI)
qed

end
